theory Spec2Isabelle
  imports Complex_Main "HOL-Library.Multiset" "HOL-Library.Log_Nat"
begin

section \<open>Data model\<close>

text \<open>
  A participant as the seating library declares it: a display name, an optional label and a
  set of theme strings. A JavaScript \<^verbatim>\<open>Set\<close> iterates in insertion order, so the themes
  are kept as a list; membership (\<^verbatim>\<open>has\<close>) is membership in the set of that list.
\<close>

record SeatingStatistics =
  name :: string
  commonThemes :: "string list"
  combinedSimilarity :: string
  hasCommon :: bool
  tableNumber :: nat
  position :: nat

record Person =
  name :: string
  label :: "string option"
  themes :: "string list"

text \<open>
  Numbers. A JavaScript number is an IEEE 754 double. A finite double is kept as the
  rational it denotes; \<open>Infinity\<close> is the initial value of the running minima, and \<open>NaN\<close> is
  what arithmetic on an \<^verbatim>\<open>undefined\<close> array element gives.

  An arithmetic operation on doubles returns the double nearest to the exact result, the
  one with the even significand at a tie. \<open>roundDouble\<close> is that rounding of an exact result
  \<open>x\<close>: with \<open>e\<close> the exponent of \<open>x\<close> (\<open>2^e \<le> |x| < 2^(e+1)\<close>), the doubles around \<open>x\<close> are the
  multiples of \<open>2^(e-52)\<close>, and \<open>x\<close> goes to the nearest of them. The exponent range of a
  double (overflow above \<open>2^1024\<close>, gradual underflow below \<open>2^-1022\<close>) is not modelled: the
  finite numbers of this program are 0, 1/2, 1, array indices, sizes of arrays and sets
  (below \<open>2^32\<close> in a JavaScript engine), quotients of two such sizes, their complements to
  1, and sums of at most that many distances, none of which comes near either end.
\<close>

datatype jsnum = Fin rat | Infinity | NaN

text \<open>The integer nearest to \<open>x\<close>, the even one when \<open>x\<close> lies half-way between two.\<close>

definition roundEven :: "rat \<Rightarrow> int" where
  "roundEven x =
     (let f = \<lfloor>x\<rfloor>; r = x - of_int f
      in if r < 1 / 2 then f else if 1 / 2 < r then f + 1 else if even f then f else f + 1)"

text \<open>
  The exponent of a positive \<open>x = p / q\<close>, from the bit lengths of \<open>p\<close> and \<open>q\<close>: their
  difference \<open>d\<close> has \<open>2^(d-1) < x < 2^(d+1)\<close>.
\<close>

definition floorLog2 :: "rat \<Rightarrow> int" where
  "floorLog2 x =
     (case quotient_of x of (p, q) \<Rightarrow>
        (let d = bitlen p - bitlen q in if 2 powi d \<le> x then d else d - 1))"

definition roundPos :: "rat \<Rightarrow> rat" where
  "roundPos x =
     (if x = 0 then 0
      else (let ulp = 2 powi (floorLog2 x - 52) in of_int (roundEven (x / ulp)) * ulp))"

definition roundDouble :: "rat \<Rightarrow> rat" where
  "roundDouble x = (if x < 0 then - roundPos (- x) else roundPos x)"

fun numLt :: "jsnum \<Rightarrow> jsnum \<Rightarrow> bool" where
  "numLt (Fin a) (Fin b) = (a < b)"
| "numLt (Fin a) Infinity = True"
| "numLt _ _ = False"

text \<open>The addition of two numbers, \<^verbatim>\<open>a + b\<close>.\<close>

fun numPlus :: "jsnum \<Rightarrow> jsnum \<Rightarrow> jsnum" where
  "numPlus (Fin a) (Fin b) = Fin (roundDouble (a + b))"
| "numPlus NaN _ = NaN"
| "numPlus _ NaN = NaN"
| "numPlus _ _ = Infinity"

datatype error = TypeError

text \<open>Reading \<^verbatim>\<open>xs[i]\<close>: \<open>None\<close> stands for \<^verbatim>\<open>undefined\<close> (index out of range).\<close>

definition elemAt :: "'a list \<Rightarrow> nat \<Rightarrow> 'a option" where
  "elemAt xs i = (if i < length xs then Some (xs ! i) else None)"

text \<open>
  Reading \<^verbatim>\<open>distMatrix[a][b]\<close>: a missing row makes the second subscript throw, a missing
  column gives \<^verbatim>\<open>undefined\<close>, which every use converts to \<open>NaN\<close>.
\<close>

definition distAt :: "rat list list \<Rightarrow> nat \<Rightarrow> nat \<Rightarrow> error + jsnum" where
  "distAt distMatrix a b =
     (case elemAt distMatrix a of
        None \<Rightarrow> Inl TypeError
      | Some row \<Rightarrow> (case elemAt row b of None \<Rightarrow> Inr NaN | Some d \<Rightarrow> Inr (Fin d)))"

datatype DistanceFunction = Commonality | AvgDistance

datatype OptimizationMode = PoorConnections | Distance

record SeatingResult =
  order :: "nat list option"
  score :: jsnum
  people :: "Person list"

text \<open>
  A seat holds a participant or \<^verbatim>\<open>null\<close>; \<open>Undefined\<close> is what \<^verbatim>\<open>people[k]\<close> puts there
  when \<open>k\<close> is out of range. A table has the single field \<^verbatim>\<open>seats\<close> and is identified with it.
\<close>

datatype seat = Occupied Person | Null | Undefined

type_synonym Table = "seat list"

record TableAssignment =
  tables :: "Table list"
  statistics :: "SeatingStatistics list"

section \<open>Affinity model\<close>

text \<open>
  \<^verbatim>\<open>(4 - commonCount) / 4\<close> is one of 0, 1/4, 1/2, 3/4 and 1, which are doubles: the
  subtraction and the division are exact. \<^verbatim>\<open>1 - (inter / union)\<close> rounds twice, at the
  division and at the subtraction.
\<close>

definition commonalityDistance :: "string list \<Rightarrow> string list \<Rightarrow> rat" where
  "commonalityDistance a b =
     (let inter = length (filter (\<lambda>x. x \<in> set b) a);
          commonCount = min inter 4
      in (4 - of_nat commonCount) / 4)"

definition avgDistance :: "string list \<Rightarrow> string list \<Rightarrow> rat" where
  "avgDistance a b =
     (let inter = length (filter (\<lambda>x. x \<in> set b) a);
          union = length (remdups (a @ b))
      in if union = 0 then 1
         else roundDouble (1 - roundDouble (of_nat inter / of_nat union)))"

fun getDistanceFunction :: "DistanceFunction \<Rightarrow> string list \<Rightarrow> string list \<Rightarrow> rat" where
  "getDistanceFunction Commonality = commonalityDistance"
| "getDistanceFunction AvgDistance = avgDistance"

text \<open>
  \<^verbatim>\<open>[...personA.themes].some(t => personB.themes.has(t))\<close>: reading \<^verbatim>\<open>.themes\<close> of
  \<^verbatim>\<open>undefined\<close> throws; the callback (and with it \<^verbatim>\<open>personB.themes\<close>) only runs when
  \<^verbatim>\<open>personA\<close> has a theme.
\<close>

definition hasCommonThemes :: "Person option \<Rightarrow> Person option \<Rightarrow> error + bool" where
  "hasCommonThemes personA personB =
     (case personA of
        None \<Rightarrow> Inl TypeError
      | Some pa \<Rightarrow>
          (if themes pa = [] then Inr False
           else (case personB of
                   None \<Rightarrow> Inl TypeError
                 | Some pb \<Rightarrow> Inr (list_ex (\<lambda>t. t \<in> set (themes pb)) (themes pa)))))"

section \<open>Pair constraint registry\<close>

definition CONSTANT_PAIRS_NAMES :: "(string \<times> string) list" where
  "CONSTANT_PAIRS_NAMES =
     [(''Majbritt Jensen'', ''Boris Sidorevitj''),
      (''Ragnhild '' @ [CHR 0xC5] @ ''s Harbo'', ''Janne Rygh'')]"

text \<open>\<^verbatim>\<open>people.findIndex(p => p.name === nm)\<close>; \<open>None\<close> stands for -1.\<close>

fun findIndex :: "Person list \<Rightarrow> string \<Rightarrow> nat option" where
  "findIndex [] nm = None"
| "findIndex (p # ps) nm =
     (if name p = nm then Some 0 else map_option Suc (findIndex ps nm))"

text \<open>
  A JavaScript \<^verbatim>\<open>Map\<close> keeps its entries in insertion order; \<^verbatim>\<open>set\<close> on a key that is
  present replaces the value where the entry stands.
\<close>

fun map_set :: "('k \<times> 'v) list \<Rightarrow> 'k \<Rightarrow> 'v \<Rightarrow> ('k \<times> 'v) list" where
  "map_set [] k v = [(k, v)]"
| "map_set ((k', v') # m) k v = (if k' = k then (k, v) # m else (k', v') # map_set m k v)"

fun findConstantPairsFrom :: "Person list \<Rightarrow> (string \<times> string) list \<Rightarrow> (nat \<times> nat) list
    \<Rightarrow> (nat \<times> nat) list" where
  "findConstantPairsFrom ps [] pairMap = pairMap"
| "findConstantPairsFrom ps ((name1, name2) # rest) pairMap =
     (case (findIndex ps name1, findIndex ps name2) of
        (Some idx1, Some idx2) \<Rightarrow>
          findConstantPairsFrom ps rest (map_set (map_set pairMap idx1 idx2) idx2 idx1)
      | _ \<Rightarrow> findConstantPairsFrom ps rest pairMap)"

definition findConstantPairs :: "Person list \<Rightarrow> (nat \<times> nat) list" where
  "findConstantPairs ps = findConstantPairsFrom ps CONSTANT_PAIRS_NAMES []"

section \<open>Distance matrix\<close>

definition set2 :: "rat list list \<Rightarrow> nat \<Rightarrow> nat \<Rightarrow> rat \<Rightarrow> rat list list" where
  "set2 m a b v = m[a := (m ! a)[b := v]]"

text \<open>The inner loop over \<open>j\<close> for one row \<open>i\<close>; both indices are below \<open>n\<close> by the loop bounds.\<close>

fun fillRow :: "Person list \<Rightarrow> (string list \<Rightarrow> string list \<Rightarrow> rat) \<Rightarrow> (nat \<times> nat) list
    \<Rightarrow> nat \<Rightarrow> nat list \<Rightarrow> rat list list \<Rightarrow> rat list list" where
  "fillRow ps distanceFunc constantPairs i [] distMatrix = distMatrix"
| "fillRow ps distanceFunc constantPairs i (j # js) distMatrix =
     (let d = (if map_of constantPairs i = Some j then 0
               else distanceFunc (themes (ps ! i)) (themes (ps ! j)))
      in fillRow ps distanceFunc constantPairs i js (set2 (set2 distMatrix j i d) i j d))"

fun fillRows :: "Person list \<Rightarrow> (string list \<Rightarrow> string list \<Rightarrow> rat) \<Rightarrow> (nat \<times> nat) list
    \<Rightarrow> nat \<Rightarrow> nat list \<Rightarrow> rat list list \<Rightarrow> rat list list" where
  "fillRows ps distanceFunc constantPairs n [] distMatrix = distMatrix"
| "fillRows ps distanceFunc constantPairs n (i # is) distMatrix =
     fillRows ps distanceFunc constantPairs n is
       (fillRow ps distanceFunc constantPairs i [i + 1 ..< n] distMatrix)"

definition createDistanceMatrix :: "Person list \<Rightarrow> (string list \<Rightarrow> string list \<Rightarrow> rat)
    \<Rightarrow> (nat \<times> nat) list \<Rightarrow> rat list list" where
  "createDistanceMatrix ps distanceFunc constantPairs =
     (let n = length ps
      in fillRows ps distanceFunc constantPairs n [0 ..< n] (replicate n (replicate n 0)))"

section \<open>Route constructor\<close>

text \<open>Priority 2: the scan over \<open>j\<close> for an unvisited participant sharing a theme.\<close>

fun scanCommon :: "rat list list \<Rightarrow> Person list \<Rightarrow> nat set \<Rightarrow> nat \<Rightarrow> nat list
    \<Rightarrow> nat option \<times> jsnum \<Rightarrow> error + (nat option \<times> jsnum)" where
  "scanCommon distMatrix ps visited current [] acc = Inr acc"
| "scanCommon distMatrix ps visited current (j # js) (next, bestDist) =
     (if j \<in> visited then scanCommon distMatrix ps visited current js (next, bestDist)
      else (case hasCommonThemes (elemAt ps current) (elemAt ps j) of
              Inl e \<Rightarrow> Inl e
            | Inr common \<Rightarrow>
                (if \<not> common then scanCommon distMatrix ps visited current js (next, bestDist)
                 else (case distAt distMatrix current j of
                         Inl e \<Rightarrow> Inl e
                       | Inr d \<Rightarrow>
                           (if numLt d bestDist
                            then scanCommon distMatrix ps visited current js (Some j, d)
                            else scanCommon distMatrix ps visited current js (next, bestDist))))))"

text \<open>Priority 3: the scan over \<open>j\<close> for the nearest unvisited participant.\<close>

fun scanNearest :: "rat list list \<Rightarrow> nat set \<Rightarrow> nat \<Rightarrow> nat list
    \<Rightarrow> nat option \<times> jsnum \<Rightarrow> error + (nat option \<times> jsnum)" where
  "scanNearest distMatrix visited current [] acc = Inr acc"
| "scanNearest distMatrix visited current (j # js) (next, bestDist) =
     (if j \<in> visited then scanNearest distMatrix visited current js (next, bestDist)
      else (case distAt distMatrix current j of
              Inl e \<Rightarrow> Inl e
            | Inr d \<Rightarrow>
                (if numLt d bestDist then scanNearest distMatrix visited current js (Some j, d)
                 else scanNearest distMatrix visited current js (next, bestDist))))"

text \<open>The fallback: the first unvisited index, if any.\<close>

fun firstUnvisited :: "nat set \<Rightarrow> nat list \<Rightarrow> nat option" where
  "firstUnvisited visited [] = None"
| "firstUnvisited visited (j # js) =
     (if j \<notin> visited then Some j else firstUnvisited visited js)"

text \<open>One pass of the body of the \<^verbatim>\<open>while\<close> loop, up to the choice of \<open>next\<close>.\<close>

definition pickNext :: "rat list list \<Rightarrow> Person list \<Rightarrow> (nat \<times> nat) list \<Rightarrow> nat \<Rightarrow> nat set
    \<Rightarrow> nat \<Rightarrow> error + nat option" where
  "pickNext distMatrix ps constantPairs n visited current =
     (case (case map_of constantPairs current of
              Some pairIdx \<Rightarrow>
                (if pairIdx \<notin> visited then Inr (Some pairIdx, Fin 0)
                 else (case scanCommon distMatrix ps visited current [0 ..< n] (None, Infinity) of
                         Inl e \<Rightarrow> Inl e
                       | Inr (next, bestDist) \<Rightarrow>
                           (if next = None
                            then scanNearest distMatrix visited current [0 ..< n] (next, bestDist)
                            else Inr (next, bestDist))))
            | None \<Rightarrow>
                (case scanCommon distMatrix ps visited current [0 ..< n] (None, Infinity) of
                   Inl e \<Rightarrow> Inl e
                 | Inr (next, bestDist) \<Rightarrow>
                     (if next = None
                      then scanNearest distMatrix visited current [0 ..< n] (next, bestDist)
                      else Inr (next, bestDist)))) of
        Inl e \<Rightarrow> Inl e
      | Inr (next, bestDist) \<Rightarrow>
          (if next = None then Inr (firstUnvisited visited [0 ..< n]) else Inr next))"

function nnLoop :: "rat list list \<Rightarrow> Person list \<Rightarrow> (nat \<times> nat) list \<Rightarrow> nat \<Rightarrow> nat list
    \<Rightarrow> nat set \<Rightarrow> nat \<Rightarrow> error + nat list" where
  "nnLoop distMatrix ps constantPairs n route visited current =
     (if length route < n
      then (case pickNext distMatrix ps constantPairs n visited current of
              Inl e \<Rightarrow> Inl e
            | Inr None \<Rightarrow> Inr route
            | Inr (Some next) \<Rightarrow>
                nnLoop distMatrix ps constantPairs n (route @ [next]) (insert next visited) next)
      else Inr route)"
  by pat_completeness auto
termination
  by (relation "measure (\<lambda>(distMatrix, ps, constantPairs, n, route, visited, current).
        n - length route)") auto

declare nnLoop.simps [simp del]

definition nearestNeighborWithCommonThemes :: "rat list list \<Rightarrow> Person list
    \<Rightarrow> (nat \<times> nat) list \<Rightarrow> nat \<Rightarrow> error + nat list" where
  "nearestNeighborWithCommonThemes distMatrix ps constantPairs startIdx =
     nnLoop distMatrix ps constantPairs (length distMatrix) [startIdx] {startIdx} startIdx"

section \<open>Local search refiner\<close>

text \<open>Sequencing of computations that may throw.\<close>

definition andThen :: "error + 'a \<Rightarrow> ('a \<Rightarrow> error + 'b) \<Rightarrow> error + 'b" where
  "andThen m f = (case m of Inl e \<Rightarrow> Inl e | Inr x \<Rightarrow> f x)"

text \<open>\<^verbatim>\<open>route.indexOf(x)\<close>; \<open>None\<close> stands for -1.\<close>

fun indexOf :: "'a list \<Rightarrow> 'a \<Rightarrow> nat option" where
  "indexOf [] x = None"
| "indexOf (y # ys) x = (if y = x then Some 0 else map_option Suc (indexOf ys x))"

text \<open>
  The neighbour test the source writes out at each of its uses:
  \<^verbatim>\<open>Math.abs(pos1 - pos2) === 1 || (pos1 === 0 && pos2 === n - 1) || (pos2 === 0 && pos1 === n - 1)\<close>.
\<close>

definition areNeighbors :: "int \<Rightarrow> int \<Rightarrow> int \<Rightarrow> bool" where
  "areNeighbors pos1 pos2 n =
     (\<bar>pos1 - pos2\<bar> = 1 \<or> (pos1 = 0 \<and> pos2 = n - 1) \<or> (pos2 = 0 \<and> pos1 = n - 1))"

fun wouldBreakFrom :: "nat list \<Rightarrow> nat \<Rightarrow> nat \<Rightarrow> (nat \<times> nat) list \<Rightarrow> bool" where
  "wouldBreakFrom route i j [] = False"
| "wouldBreakFrom route i j ((idx1, idx2) # rest) =
     (case (indexOf route idx1, indexOf route idx2) of
        (Some pos1, Some pos2) \<Rightarrow>
          (if areNeighbors (int pos1) (int pos2) (int (length route))
           then (let pos1InSegment = (i \<le> pos1 \<and> pos1 \<le> j);
                     pos2InSegment = (i \<le> pos2 \<and> pos2 \<le> j)
                 in if pos1InSegment \<noteq> pos2InSegment then True
                    else if pos1InSegment \<and> pos2InSegment \<and>
                            \<not> areNeighbors (int j - (int pos1 - int i)) (int j - (int pos2 - int i))
                                (int (length route))
                         then True
                         else wouldBreakFrom route i j rest)
           else wouldBreakFrom route i j rest)
      | _ \<Rightarrow> wouldBreakFrom route i j rest)"

definition wouldBreakConstantPair :: "nat list \<Rightarrow> nat \<Rightarrow> nat \<Rightarrow> (nat \<times> nat) list \<Rightarrow> bool" where
  "wouldBreakConstantPair route i j constantPairs =
     (if constantPairs = [] then False else wouldBreakFrom route i j constantPairs)"

text \<open>
  The test of one candidate \<open>(i, j)\<close> that passed the pair check: \<open>True\<close> when the segment is
  reversed. The loop bounds keep \<open>i - 1\<close> and \<open>j + 1\<close> inside the route.
\<close>

definition acceptMove :: "rat list list \<Rightarrow> Person list \<Rightarrow> nat list \<Rightarrow> nat \<Rightarrow> nat
    \<Rightarrow> error + bool" where
  "acceptMove distMatrix ps route i j =
     andThen (distAt distMatrix (route ! (i - 1)) (route ! i)) (\<lambda>d1.
     andThen (distAt distMatrix (route ! j) (route ! (j + 1))) (\<lambda>d2.
     andThen (distAt distMatrix (route ! (i - 1)) (route ! j)) (\<lambda>d3.
     andThen (distAt distMatrix (route ! i) (route ! (j + 1))) (\<lambda>d4.
       (let distBefore = numPlus d1 d2; distAfter = numPlus d3 d4
        in if numLt distAfter distBefore
           then andThen (hasCommonThemes (elemAt ps (route ! (i - 1))) (elemAt ps (route ! j)))
                  (\<lambda>c1.
                andThen (hasCommonThemes (elemAt ps (route ! i)) (elemAt ps (route ! (j + 1))))
                  (\<lambda>c2.
                  (let isolationPenalty = (if \<not> c1 then 1 / 2 else 0) + (if \<not> c2 then 1 / 2 else 0)
                   in Inr (numLt (numPlus distAfter (Fin isolationPenalty)) distBefore))))
           else Inr False)))))"

fun scanJ :: "rat list list \<Rightarrow> Person list \<Rightarrow> (nat \<times> nat) list \<Rightarrow> nat list \<Rightarrow> nat
    \<Rightarrow> nat list \<Rightarrow> error + nat option" where
  "scanJ distMatrix ps constantPairs route i [] = Inr None"
| "scanJ distMatrix ps constantPairs route i (j # js) =
     (if wouldBreakConstantPair route i j constantPairs
      then scanJ distMatrix ps constantPairs route i js
      else (case acceptMove distMatrix ps route i j of
              Inl e \<Rightarrow> Inl e
            | Inr accepted \<Rightarrow>
                (if accepted then Inr (Some j)
                 else scanJ distMatrix ps constantPairs route i js)))"

fun scanI :: "rat list list \<Rightarrow> Person list \<Rightarrow> (nat \<times> nat) list \<Rightarrow> nat list \<Rightarrow> nat list
    \<Rightarrow> error + (nat \<times> nat) option" where
  "scanI distMatrix ps constantPairs route [] = Inr None"
| "scanI distMatrix ps constantPairs route (i # is) =
     (case scanJ distMatrix ps constantPairs route i [i + 1 ..< length route - 1] of
        Inl e \<Rightarrow> Inl e
      | Inr (Some j) \<Rightarrow> Inr (Some (i, j))
      | Inr None \<Rightarrow> scanI distMatrix ps constantPairs route is)"

text \<open>\<^verbatim>\<open>route.splice(i, j - i + 1, ...route.slice(i, j + 1).reverse())\<close>\<close>

definition reverseSegment :: "nat list \<Rightarrow> nat \<Rightarrow> nat \<Rightarrow> nat list" where
  "reverseSegment route i j =
     take i route @ rev (take (j + 1 - i) (drop i route)) @ drop (j + 1) route"

text \<open>
  The \<^verbatim>\<open>while (improved)\<close> loop: one pass scans the candidates in the order of the two
  \<^verbatim>\<open>for\<close> loops, reverses at the first accepted one and starts over; a pass that accepts
  nothing ends the loop. \<open>None\<close> is a loop that never ends.
\<close>

partial_function (option) twoOpt :: "nat list \<Rightarrow> rat list list \<Rightarrow> Person list
    \<Rightarrow> (nat \<times> nat) list \<Rightarrow> (error + nat list) option" where
  "twoOpt route distMatrix ps constantPairs =
     (case scanI distMatrix ps constantPairs route [1 ..< length route - 2] of
        Inl e \<Rightarrow> Some (Inl e)
      | Inr None \<Rightarrow> Some (Inr route)
      | Inr (Some (i, j)) \<Rightarrow> twoOpt (reverseSegment route i j) distMatrix ps constantPairs)"

declare twoOpt.simps [code]

text \<open>
  The routes the loop holds at the start of its passes during a call on \<open>route\<close>: \<open>route\<close>
  itself and, when the first pass accepts the candidate \<open>(i, j)\<close>, the routes of the rest of
  the run, which goes on with that segment reversed.
\<close>

inductive twoOptVisits :: "rat list list \<Rightarrow> Person list \<Rightarrow> (nat \<times> nat) list \<Rightarrow> nat list \<Rightarrow> nat list
    \<Rightarrow> bool"
  for distMatrix ps constantPairs where
    first: "twoOptVisits distMatrix ps constantPairs route route"
  | pass: "scanI distMatrix ps constantPairs route [1 ..< length route - 2] = Inr (Some (i, j)) \<Longrightarrow>
           twoOptVisits distMatrix ps constantPairs (reverseSegment route i j) r \<Longrightarrow>
           twoOptVisits distMatrix ps constantPairs route r"

code_pred twoOptVisits .

section \<open>Pair enforcement on a route\<close>

definition removeAt :: "'a list \<Rightarrow> nat \<Rightarrow> 'a list" where
  "removeAt xs k = take k xs @ drop (k + 1) xs"

definition insertAt :: "'a list \<Rightarrow> nat \<Rightarrow> 'a \<Rightarrow> 'a list" where
  "insertAt xs k v = take k xs @ [v] @ drop k xs"

text \<open>Where \<^verbatim>\<open>indexOf(x) + 1\<close> points: 0 when \<open>x\<close> is absent (-1 + 1).\<close>

definition afterIndexOf :: "nat list \<Rightarrow> nat \<Rightarrow> nat" where
  "afterIndexOf xs x = (case indexOf xs x of None \<Rightarrow> 0 | Some p \<Rightarrow> p + 1)"

fun enforceFrom :: "nat \<Rightarrow> (nat \<times> nat) list \<Rightarrow> nat list \<Rightarrow> nat list" where
  "enforceFrom n [] newRoute = newRoute"
| "enforceFrom n ((idx1, idx2) # rest) newRoute =
     (case (indexOf newRoute idx1, indexOf newRoute idx2) of
        (Some pos1, Some pos2) \<Rightarrow>
          (if \<not> areNeighbors (int pos1) (int pos2) (int n)
           then (if pos1 < pos2
                 then (let r = removeAt newRoute pos2
                       in enforceFrom n rest (insertAt r (afterIndexOf r idx1) idx2))
                 else (let r = removeAt newRoute pos1
                       in enforceFrom n rest (insertAt r (afterIndexOf r idx2) idx1)))
           else enforceFrom n rest newRoute)
      | _ \<Rightarrow> enforceFrom n rest newRoute)"

definition enforceConstantPairs :: "nat list \<Rightarrow> (nat \<times> nat) list \<Rightarrow> nat list" where
  "enforceConstantPairs route constantPairs =
     (if constantPairs = [] then route
      else enforceFrom (length route) constantPairs route)"

section \<open>Scoring\<close>

text \<open>
  The themes of \<open>person\<close> that \<open>other\<close> has too, as the \<^verbatim>\<open>forEach\<close> collects them: the callback
  (and with it \<^verbatim>\<open>other.themes\<close>) only runs when \<open>person\<close> has a theme.
\<close>

definition sharedThemes :: "Person option \<Rightarrow> Person option \<Rightarrow> error + string list" where
  "sharedThemes person other =
     (case person of
        None \<Rightarrow> Inl TypeError
      | Some p \<Rightarrow>
          (if themes p = [] then Inr []
           else (case other of
                   None \<Rightarrow> Inl TypeError
                 | Some q \<Rightarrow> Inr (filter (\<lambda>t. t \<in> set (themes q)) (themes p)))))"

definition poorAt :: "nat list \<Rightarrow> Person list \<Rightarrow> nat \<Rightarrow> error + bool" where
  "poorAt route ps i =
     andThen (if 0 < i then sharedThemes (elemAt ps (route ! i)) (elemAt ps (route ! (i - 1)))
              else Inr []) (\<lambda>fromPrev.
     andThen (if i + 1 < length route
              then sharedThemes (elemAt ps (route ! i)) (elemAt ps (route ! (i + 1)))
              else Inr []) (\<lambda>fromNext.
       Inr (length (remdups (fromPrev @ fromNext)) \<le> 2)))"

fun countPoorFrom :: "nat list \<Rightarrow> Person list \<Rightarrow> nat list \<Rightarrow> nat \<Rightarrow> error + nat" where
  "countPoorFrom route ps [] poorCount = Inr poorCount"
| "countPoorFrom route ps (i # is) poorCount =
     (case poorAt route ps i of
        Inl e \<Rightarrow> Inl e
      | Inr poor \<Rightarrow> countPoorFrom route ps is (if poor then poorCount + 1 else poorCount))"

definition countPoorConnections :: "nat list \<Rightarrow> Person list \<Rightarrow> error + nat" where
  "countPoorConnections route ps = countPoorFrom route ps [0 ..< length route] 0"

fun totalCostFrom :: "nat list \<Rightarrow> rat list list \<Rightarrow> nat list \<Rightarrow> jsnum \<Rightarrow> error + jsnum" where
  "totalCostFrom route distMatrix [] cost = Inr cost"
| "totalCostFrom route distMatrix (i # is) cost =
     (case distAt distMatrix (route ! i) (route ! (i + 1)) of
        Inl e \<Rightarrow> Inl e
      | Inr d \<Rightarrow> totalCostFrom route distMatrix is (numPlus cost d))"

definition calculateTotalCost :: "nat list \<Rightarrow> rat list list \<Rightarrow> error + jsnum" where
  "calculateTotalCost route distMatrix =
     totalCostFrom route distMatrix [0 ..< length route - 1] (Fin 0)"

section \<open>Multi-start search driver\<close>

text \<open>
  The score of a route under the active mode.
\<close>

definition scoreOf :: "OptimizationMode \<Rightarrow> nat list \<Rightarrow> rat list list \<Rightarrow> Person list
    \<Rightarrow> error + jsnum" where
  "scoreOf optimizationMode route distMatrix ps =
     (if optimizationMode = Distance then calculateTotalCost route distMatrix
      else andThen (countPoorConnections route ps) (\<lambda>c. Inr (Fin (of_nat c))))"

text \<open>
  The body of one attempt, from its start index to the scored route: construction, 2-opt,
  pair enforcement, score.
\<close>

definition runAttempt :: "Person list \<Rightarrow> rat list list \<Rightarrow> (nat \<times> nat) list \<Rightarrow> OptimizationMode
    \<Rightarrow> nat \<Rightarrow> (error + (nat list \<times> jsnum)) option" where
  "runAttempt ps distMatrix constantPairs optimizationMode startIdx =
     (case nearestNeighborWithCommonThemes distMatrix ps constantPairs startIdx of
        Inl e \<Rightarrow> Some (Inl e)
      | Inr order0 \<Rightarrow>
          (case twoOpt order0 distMatrix ps constantPairs of
             None \<Rightarrow> None
           | Some (Inl e) \<Rightarrow> Some (Inl e)
           | Some (Inr order1) \<Rightarrow>
               (let order2 = enforceConstantPairs order1 constantPairs
                in (case scoreOf optimizationMode order2 distMatrix ps of
                      Inl e \<Rightarrow> Some (Inl e)
                    | Inr sc \<Rightarrow> Some (Inr (order2, sc))))))"

text \<open>
  The \<^verbatim>\<open>for\<close> loop over the attempts. \<open>rnd attempt\<close> is the value \<^verbatim>\<open>Math.random()\<close> returns in
  that attempt (a number in [0, 1)). The start index is the floor of the product of the
  draw and \<open>n\<close>; the product is taken exactly, which only changes which draw gives which
  of the indices below \<open>n\<close>, and the properties are stated for every sequence of draws.
  The optional progress callback only reports and is left out.
\<close>

fun attemptsLoop :: "Person list \<Rightarrow> rat list list \<Rightarrow> (nat \<times> nat) list \<Rightarrow> OptimizationMode
    \<Rightarrow> (nat \<Rightarrow> rat) \<Rightarrow> nat list \<Rightarrow> nat list option \<times> jsnum
    \<Rightarrow> (error + (nat list option \<times> jsnum)) option" where
  "attemptsLoop ps distMatrix constantPairs optimizationMode rnd [] best = Some (Inr best)"
| "attemptsLoop ps distMatrix constantPairs optimizationMode rnd (attempt # rest)
       (bestOverallOrder, bestOverallScore) =
     (let startIdx = nat \<lfloor>rnd attempt * of_nat (length ps)\<rfloor>
      in (case runAttempt ps distMatrix constantPairs optimizationMode startIdx of
            None \<Rightarrow> None
          | Some (Inl e) \<Rightarrow> Some (Inl e)
          | Some (Inr (ord, sc)) \<Rightarrow>
              attemptsLoop ps distMatrix constantPairs optimizationMode rnd rest
                (if numLt sc bestOverallScore then (Some ord, sc)
                 else (bestOverallOrder, bestOverallScore))))"

definition optimizeSeating :: "Person list \<Rightarrow> nat \<Rightarrow> (nat \<Rightarrow> rat) \<Rightarrow> DistanceFunction
    \<Rightarrow> OptimizationMode \<Rightarrow> (error + SeatingResult) option" where
  "optimizeSeating ps attempts rnd distanceFunction optimizationMode =
     (let distFunc = getDistanceFunction distanceFunction;
          constantPairs = findConstantPairs ps;
          distMatrix = createDistanceMatrix ps distFunc constantPairs
      in (case attemptsLoop ps distMatrix constantPairs optimizationMode rnd [0 ..< attempts]
                 (None, Infinity) of
            None \<Rightarrow> None
          | Some (Inl e) \<Rightarrow> Some (Inl e)
          | Some (Inr (bestOverallOrder, bestOverallScore)) \<Rightarrow>
              Some (Inr \<lparr>order = map_option (\<lambda>ord. enforceConstantPairs ord constantPairs)
                                  bestOverallOrder,
                         score = bestOverallScore,
                         people = ps\<rparr>)))"

section \<open>Table assignment mapper\<close>

definition seatOf :: "Person option \<Rightarrow> seat" where
  "seatOf p = (case p of None \<Rightarrow> Undefined | Some q \<Rightarrow> Occupied q)"

text \<open>
  One side of a table: \<^verbatim>\<open>for (i = 0; i < seatsPerSide && personIdx < order.length; i++)\<close>,
  counted down. The length of a \<^verbatim>\<open>null\<close> order is only read when a seat is left to fill.
\<close>

fun fillSide :: "Person list \<Rightarrow> nat list option \<Rightarrow> nat \<Rightarrow> nat \<Rightarrow> seat list
    \<Rightarrow> error + (seat list \<times> nat)" where
  "fillSide ps ord 0 personIdx side = Inr (side, personIdx)"
| "fillSide ps ord (Suc k) personIdx side =
     (case ord of
        None \<Rightarrow> Inl TypeError
      | Some ordr \<Rightarrow>
          (if personIdx < length ordr
           then fillSide ps ord k (personIdx + 1) (side @ [seatOf (elemAt ps (ordr ! personIdx))])
           else Inr (side, personIdx)))"

fun fillTables :: "Person list \<Rightarrow> nat list option \<Rightarrow> nat list \<Rightarrow> nat
    \<Rightarrow> error + Table list" where
  "fillTables ps ord [] personIdx = Inr []"
| "fillTables ps ord (seatsPerTable # rest) personIdx =
     (let seatsPerSide = (seatsPerTable + 1) div 2
      in andThen (fillSide ps ord seatsPerSide personIdx []) (\<lambda>(leftSeats, personIdx1).
         andThen (fillSide ps ord seatsPerSide personIdx1 []) (\<lambda>(rightSeats, personIdx2).
         andThen (fillTables ps ord rest personIdx2) (\<lambda>others.
           Inr ((leftSeats @ rev rightSeats) # others)))))"

definition seatHasName :: "seat \<Rightarrow> string \<Rightarrow> bool" where
  "seatHasName st nm = (case st of Occupied p \<Rightarrow> name p = nm | _ \<Rightarrow> False)"

text \<open>
  The search for a name over all tables and seats: the loops do not stop at a match, so
  the last matching seat is the one kept.
\<close>

definition locate :: "Table list \<Rightarrow> string \<Rightarrow> (nat \<times> nat) option" where
  "locate tbls nm =
     fold (\<lambda>t found.
             fold (\<lambda>s found'. if seatHasName (tbls ! t ! s) nm then Some (t, s) else found')
               [0 ..< length (tbls ! t)] found)
       [0 ..< length tbls] None"

definition findAdjacentSeat :: "Table \<Rightarrow> nat \<Rightarrow> nat option" where
  "findAdjacentSeat table seatIdx =
     (let n = length table
      in if n = 0 then None
         else (let prevIdx = (if 0 < seatIdx then seatIdx - 1 else n - 1)
               in if elemAt table prevIdx = Some Null then Some prevIdx
                  else (let nextIdx = (if seatIdx < n - 1 then seatIdx + 1 else 0)
                        in if elemAt table nextIdx = Some Null then Some nextIdx else None)))"

definition setSeat :: "Table list \<Rightarrow> nat \<Rightarrow> nat \<Rightarrow> seat \<Rightarrow> Table list" where
  "setSeat tbls t s v = tbls[t := (tbls ! t)[s := v]]"

text \<open>\<^verbatim>\<open>nullIdx = seats.indexOf(null); if (nullIdx !== -1) seats.splice(nullIdx, 1)\<close>\<close>

definition removeFirstNull :: "Table list \<Rightarrow> nat \<Rightarrow> Table list" where
  "removeFirstNull tbls t =
     (case indexOf (tbls ! t) Null of
        None \<Rightarrow> tbls
      | Some nullIdx \<Rightarrow> tbls[t := removeAt (tbls ! t) nullIdx])"

text \<open>The first repair: the two members sit at different tables.\<close>

definition moveToTable :: "Table list \<Rightarrow> nat \<Rightarrow> nat \<Rightarrow> nat \<Rightarrow> nat \<Rightarrow> Person
    \<Rightarrow> Table list \<times> nat" where
  "moveToTable tbls table1Idx seat1Idx table2Idx seat2Idx person2 =
     (let tbls1 = setSeat tbls table2Idx seat2Idx Null
      in (case findAdjacentSeat (tbls1 ! table1Idx) seat1Idx of
            Some adjacentSeat \<Rightarrow>
              (setSeat tbls1 table1Idx adjacentSeat (Occupied person2), adjacentSeat)
          | None \<Rightarrow>
              (let insertPos = seat1Idx + 1;
                   tbls2 = tbls1[table1Idx := insertAt (tbls1 ! table1Idx) insertPos
                                                (Occupied person2)]
               in (removeFirstNull tbls2 table2Idx, insertPos))))"

text \<open>The second repair: the two members sit at the same table and are not adjacent.\<close>

definition moveNextTo :: "Table list \<Rightarrow> nat \<Rightarrow> nat \<Rightarrow> nat \<Rightarrow> Person \<Rightarrow> Table list" where
  "moveNextTo tbls table1Idx seat1Idx seat2Idx person2 =
     (let tbls1 = setSeat tbls table1Idx seat2Idx Null
      in (case findAdjacentSeat (tbls1 ! table1Idx) seat1Idx of
            Some adjacentSeat \<Rightarrow> setSeat tbls1 table1Idx adjacentSeat (Occupied person2)
          | None \<Rightarrow>
              (let insertPos = seat1Idx + 1;
                   tbls2 = tbls1[table1Idx := insertAt (tbls1 ! table1Idx) insertPos
                                                (Occupied person2)]
               in removeFirstNull tbls2 table1Idx)))"

text \<open>The body of the loop over the declared pairs.\<close>

definition enforcePairOnTables :: "(string \<times> Person) list \<Rightarrow> Table list \<Rightarrow> string \<times> string
    \<Rightarrow> Table list" where
  "enforcePairOnTables nameToPerson tbls pair =
     (case pair of (name1, name2) \<Rightarrow>
        (case (map_of nameToPerson name1, map_of nameToPerson name2) of
           (Some person1, Some person2) \<Rightarrow>
             (case (locate tbls name1, locate tbls name2) of
                (Some (table1Idx, seat1Idx), Some (table2Idx, seat2Idx)) \<Rightarrow>
                  (let (tbls1, seat2Idx1) =
                         (if table1Idx \<noteq> table2Idx
                          then moveToTable tbls table1Idx seat1Idx table2Idx seat2Idx person2
                          else (tbls, seat2Idx));
                       n = length (tbls1 ! table1Idx)
                   in if \<not> areNeighbors (int seat1Idx) (int seat2Idx1) (int n)
                      then moveNextTo tbls1 table1Idx seat1Idx seat2Idx1 person2
                      else tbls1)
              | _ \<Rightarrow> tbls)
         | _ \<Rightarrow> tbls))"

text \<open>\<^verbatim>\<open>while (seats.length > 0 && seats[seats.length - 1] === null) seats.pop()\<close>\<close>

function popNulls :: "Table \<Rightarrow> Table" where
  "popNulls table = (if table \<noteq> [] \<and> last table = Null then popNulls (butlast table) else table)"
  by pat_completeness auto
termination
  by (relation "measure length") auto

declare popNulls.simps [simp del]

definition enforceConstantPairsOnTables :: "Table list \<Rightarrow> (nat \<times> nat) list \<Rightarrow> Person list
    \<Rightarrow> Table list" where
  "enforceConstantPairsOnTables tbls constantPairs ps =
     (if constantPairs = [] then tbls
      else (let nameToPerson = fold (\<lambda>p m. map_set m (name p) p) ps []
            in map popNulls (fold (\<lambda>pair tbls'. enforcePairOnTables nameToPerson tbls' pair)
                               CONSTANT_PAIRS_NAMES tbls)))"

text \<open>
  The validation after the repair only writes to the console; \<open>validatePair\<close> gives the
  message it chooses for a declared pair.
\<close>

datatype validation = NotFound | DifferentTables | NotAdjacent | Together

definition validatePair :: "Table list \<Rightarrow> string \<times> string \<Rightarrow> validation" where
  "validatePair tbls pair =
     (case pair of (name1, name2) \<Rightarrow>
        (case (locate tbls name1, locate tbls name2) of
           (Some (table1Idx, seat1Idx), Some (table2Idx, seat2Idx)) \<Rightarrow>
             (if table1Idx \<noteq> table2Idx then DifferentTables
              else if \<not> areNeighbors (int seat1Idx) (int seat2Idx)
                        (int (length (tbls ! table1Idx)))
                   then NotAdjacent
                   else Together)
         | _ \<Rightarrow> NotFound))"

definition validateConstantPairs :: "Table list \<Rightarrow> validation list" where
  "validateConstantPairs tbls = map (validatePair tbls) CONSTANT_PAIRS_NAMES"

section \<open>Statistics calculator\<close>

definition digit :: "nat \<Rightarrow> char" where
  "digit d = ''0123456789'' ! d"

function decimal :: "nat \<Rightarrow> string" where
  "decimal n = (if n < 10 then [digit n] else decimal (n div 10) @ [digit (n mod 10)])"
  by pat_completeness auto
termination
  by (relation "measure id") auto

declare decimal.simps [simp del]

text \<open>
  \<^verbatim>\<open>x.toFixed(2)\<close> for a finite \<open>x\<close>: the integer \<open>n\<close> nearest to \<open>100 x\<close> (the larger one at a
  tie), written with two digits after the point.
\<close>

definition toFixed2 :: "rat \<Rightarrow> string" where
  "toFixed2 x =
     (let n = nat \<lfloor>\<bar>x\<bar> * 100 + 1 / 2\<rfloor>;
          body = decimal (n div 100) @ ''.'' @ [digit (n mod 100 div 10), digit (n mod 10)]
      in if x < 0 then CHR ''-'' # body else body)"

text \<open>The elements of a list in the order of their first occurrences, as a \<^verbatim>\<open>Set\<close> keeps them.\<close>

definition setOrder :: "'a list \<Rightarrow> 'a list" where
  "setOrder xs = rev (remdups (rev xs))"

text \<open>What one side of a seat contributes: the shared themes and the distance.\<close>

definition neighborInfo :: "Person \<Rightarrow> seat \<Rightarrow> string list \<times> rat" where
  "neighborInfo person st =
     (case st of
        Occupied other \<Rightarrow>
          (filter (\<lambda>t. t \<in> set (themes other)) (themes person),
           commonalityDistance (themes person) (themes other))
      | _ \<Rightarrow> ([], 0))"

text \<open>The callback of the inner \<^verbatim>\<open>forEach\<close>: the record of one seat, if it is occupied.\<close>

definition seatStatistics :: "Table \<Rightarrow> nat \<Rightarrow> nat \<Rightarrow> SeatingStatistics option" where
  "seatStatistics table tableIdx seatIdx =
     (case table ! seatIdx of
        Occupied person \<Rightarrow>
          (let (previousThemes, previousSimilarity) =
                 (if 0 < seatIdx then neighborInfo person (table ! (seatIdx - 1)) else ([], 0));
               (nextThemes, nextSimilarity) =
                 (if seatIdx + 1 < length table then neighborInfo person (table ! (seatIdx + 1))
                  else ([], 0));
               common = setOrder (previousThemes @ nextThemes);
               combined =
                 (if seatIdx = 0 then nextSimilarity
                  else if seatIdx = length table - 1 then previousSimilarity
                  else (previousSimilarity + nextSimilarity) / 2)
           in Some \<lparr>SeatingStatistics.name = name person,
                    commonThemes = common,
                    combinedSimilarity = toFixed2 combined,
                    hasCommon = (0 < length common),
                    tableNumber = tableIdx + 1,
                    position = seatIdx + 1\<rparr>)
      | _ \<Rightarrow> None)"

definition calculateStatistics :: "Table list \<Rightarrow> SeatingStatistics list" where
  "calculateStatistics tbls =
     concat (map (\<lambda>tableIdx.
                    List.map_filter (seatStatistics (tbls ! tableIdx) tableIdx)
                      [0 ..< length (tbls ! tableIdx)])
               [0 ..< length tbls])"

definition assignToTables :: "SeatingResult \<Rightarrow> nat list \<Rightarrow> error + TableAssignment" where
  "assignToTables seatingResult tableSizes =
     (let ps = people seatingResult;
          constantPairs = findConstantPairs ps
      in andThen (fillTables ps (order seatingResult) tableSizes 0) (\<lambda>tbls0.
           (let tbls1 = enforceConstantPairsOnTables tbls0 constantPairs ps
            in Inr \<lparr>tables = tbls1, statistics = calculateStatistics tbls1\<rparr>)))"

section \<open>Notions used in the properties\<close>

text \<open>A distance matrix is square of size \<open>n\<close>, and symmetric.\<close>

definition squareMatrix :: "nat \<Rightarrow> rat list list \<Rightarrow> bool" where
  "squareMatrix n m = (length m = n \<and> (\<forall>row \<in> set m. length row = n))"

definition symmetricMatrix :: "rat list list \<Rightarrow> bool" where
  "symmetricMatrix m = (\<forall>a < length m. \<forall>b < length m. m ! a ! b = m ! b ! a)"

text \<open>
  A pair of participant indices is adjacent in a route: both occur, and their first
  positions pass the neighbour test of the source.
\<close>

definition pairAdjacent :: "nat list \<Rightarrow> nat \<Rightarrow> nat \<Rightarrow> bool" where
  "pairAdjacent route idx1 idx2 =
     (case (indexOf route idx1, indexOf route idx2) of
        (Some pos1, Some pos2) \<Rightarrow> areNeighbors (int pos1) (int pos2) (int (length route))
      | _ \<Rightarrow> False)"

text \<open>Two participant indices stand next to each other in a route.\<close>

definition consecutiveIn :: "nat list \<Rightarrow> nat \<Rightarrow> nat \<Rightarrow> bool" where
  "consecutiveIn route a b =
     (\<exists>k. k + 1 < length route \<and>
          (route ! k = a \<and> route ! (k + 1) = b \<or> route ! k = b \<and> route ! (k + 1) = a))"

text \<open>Every entry of a matrix of size \<open>n\<close> is one of 0, 1/4, 1/2, 3/4 and 1.\<close>

definition quarterMatrix :: "nat \<Rightarrow> rat list list \<Rightarrow> bool" where
  "quarterMatrix n m = (\<forall>a < n. \<forall>b < n. \<exists>k \<in> {0 .. 4::int}. m ! a ! b = of_int k / 4)"

text \<open>
  The sum of the distances of consecutive participants along a route, as a rational number:
  what \<open>calculateTotalCost\<close> would return if its additions did not round.
\<close>

fun pathCost :: "rat list list \<Rightarrow> nat list \<Rightarrow> rat" where
  "pathCost m [] = 0"
| "pathCost m [a] = 0"
| "pathCost m (a # b # xs) = m ! a ! b + pathCost m (b # xs)"

text \<open>
  Two named participants sit at ring-adjacent seats of a table; of some table of a list.
\<close>

definition adjacentIn :: "Table \<Rightarrow> string \<Rightarrow> string \<Rightarrow> bool" where
  "adjacentIn table nameA nameB =
     (\<exists>sa < length table. \<exists>sb < length table.
        seatHasName (table ! sa) nameA \<and> seatHasName (table ! sb) nameB \<and>
        areNeighbors (int sa) (int sb) (int (length table)))"

definition tableAdjacent :: "Table list \<Rightarrow> string \<Rightarrow> string \<Rightarrow> bool" where
  "tableAdjacent tbls nameA nameB = (\<exists>t < length tbls. adjacentIn (tbls ! t) nameA nameB)"

text \<open>The seats that are not empty, of one table and of all tables, as multisets.\<close>

definition nonNull :: "seat list \<Rightarrow> seat multiset" where
  "nonNull xs = filter_mset (\<lambda>st. st \<noteq> Null) (mset xs)"

definition nonNullSeats :: "Table list \<Rightarrow> seat multiset" where
  "nonNullSeats tbls = filter_mset (\<lambda>st. st \<noteq> Null) (mset (concat tbls))"

text \<open>
  The names of the constraint registry, and a name that at most one participant carries.
\<close>

definition pinnedNames :: "string list" where
  "pinnedNames = concat (map (\<lambda>(name1, name2). [name1, name2]) CONSTANT_PAIRS_NAMES)"

definition namedOnce :: "Person list \<Rightarrow> string \<Rightarrow> bool" where
  "namedOnce ps nm = (length (filter (\<lambda>p. name p = nm) ps) \<le> 1)"

text \<open>
  The number of route entries the snake placement consumes for a list of table sizes: both
  sides of a table take \<open>ceil(s / 2)\<close> entries.
\<close>

definition seatsFilled :: "nat list \<Rightarrow> nat" where
  "seatsFilled sizes = sum_list (map (\<lambda>s. 2 * ((s + 1) div 2)) sizes)"

section \<open>Example inputs\<close>

definition mkPerson :: "string \<Rightarrow> string list \<Rightarrow> Person" where
  "mkPerson nm ts = \<lparr>name = nm, label = None, themes = ts\<rparr>"

text \<open>Four participants with the themes A: x, y; B: x; C: y; D: none.\<close>

definition fourPeople :: "Person list" where
  "fourPeople =
     [mkPerson ''A'' [''x'', ''y''], mkPerson ''B'' [''x''], mkPerson ''C'' [''y''],
      mkPerson ''D'' []]"

definition fourInOrder :: SeatingResult where
  "fourInOrder = \<lparr>order = Some [0, 1, 2, 3], score = Fin 4, people = fourPeople\<rparr>"

text \<open>
  Five participants, the first and the fourth a declared pair; the route \<open>fiveRoute\<close>
  takes them in the order of the list.
\<close>

definition fivePeople :: "Person list" where
  "fivePeople =
     [mkPerson ''Majbritt Jensen'' [''a'', ''b'', ''c'', ''d''],
      mkPerson ''P1'' [''a'', ''b'', ''c'', ''d''],
      mkPerson ''P2'' [''e'', ''f'', ''g'', ''h''],
      mkPerson ''Boris Sidorevitj'' [''a'', ''b'', ''c'', ''d''],
      mkPerson ''P4'' [''e'', ''f'', ''g'', ''h'']]"

definition fiveRoute :: "nat list" where
  "fiveRoute = [0, 1, 2, 3, 4]"

text \<open>
  Five participants, the first and the third a declared pair; \<open>pinnedBuiltRoute\<close> is the
  route the constructor builds for them from the start index 1, and \<open>pinnedRefinedRoute\<close> is
  that route with the segment \<open>[2..3]\<close>, which holds the pair, reversed.
\<close>

definition pinnedPeople :: "Person list" where
  "pinnedPeople =
     [mkPerson ''Majbritt Jensen'' [''f'', ''a'', ''g''],
      mkPerson ''G1'' [''b'', ''g'', ''h''],
      mkPerson ''Boris Sidorevitj'' [''g''],
      mkPerson ''G3'' [''h'', ''f'', ''a''],
      mkPerson ''G4'' [''g'', ''b'', ''f'', ''d'']]"

definition pinnedBuiltRoute :: "nat list" where
  "pinnedBuiltRoute = [1, 4, 0, 2, 3]"

definition pinnedRefinedRoute :: "nat list" where
  "pinnedRefinedRoute = [1, 4, 2, 0, 3]"

text \<open>
  Four participants of two camps, the camps alternating along the route \<open>crossedRoute\<close>:
  reversing its middle segment brings the members of each camp together.
\<close>

definition crossedPeople :: "Person list" where
  "crossedPeople =
     [mkPerson ''K0'' [''a'', ''b'', ''c'', ''d''],
      mkPerson ''K1'' [''e'', ''f'', ''g'', ''h''],
      mkPerson ''K2'' [''a'', ''b'', ''c'', ''d''],
      mkPerson ''K3'' [''e'', ''f'', ''g'', ''h'']]"

definition crossedRoute :: "nat list" where
  "crossedRoute = [0, 1, 2, 3]"

text \<open>
  Five participants whose distances in \<^verbatim>\<open>avg_distance\<close> mode are 0.4, 0.6, 0.8 and 1, none
  of them a declared pair; \<open>roundingRoute\<close> is the route the constructor builds from the
  start index 2.
\<close>

definition roundingPeople :: "Person list" where
  "roundingPeople =
     [mkPerson ''Q0'' [''a'', ''b'', ''c'', ''f''],
      mkPerson ''Q1'' [''b'', ''e'', ''f''],
      mkPerson ''Q2'' [],
      mkPerson ''Q3'' [''b'', ''c'', ''d''],
      mkPerson ''Q4'' [''a'', ''b'', ''d'', ''f'']]"

definition roundingRoute :: "nat list" where
  "roundingRoute = [2, 0, 4, 1, 3]"

text \<open>A random source that returns the same number in every attempt.\<close>

definition constRnd :: "rat \<Rightarrow> nat \<Rightarrow> rat" where
  "constRnd r attempt = r"

text \<open>
  Five participants, two of them with the name of the second member of the first declared
  pair, in a route that is a permutation of their indices.
\<close>

definition dupPeople :: "Person list" where
  "dupPeople =
     [mkPerson ''Majbritt Jensen'' [''a''],
      mkPerson ''X'' [''b''],
      mkPerson ''Boris Sidorevitj'' [''c''],
      mkPerson ''Y'' [''d''],
      mkPerson ''Boris Sidorevitj'' [''e'']]"

definition dupInOrder :: SeatingResult where
  "dupInOrder = \<lparr>order = Some [0, 1, 4, 3, 2], score = Fin 0, people = dupPeople\<rparr>"



text \<open>The five participants in route order, as a seating result.\<close>

definition fiveInOrder :: SeatingResult where
  "fiveInOrder = \<lparr>order = Some fiveRoute, score = Fin 0, people = fivePeople\<rparr>"

section \<open>Rounding to a double\<close>

lemma roundEven_range: "\<lfloor>x\<rfloor> \<le> roundEven x \<and> roundEven x \<le> \<lfloor>x\<rfloor> + 1"
  by (simp add: roundEven_def Let_def)

lemma roundEven_of_int [simp]: "roundEven (of_int k) = k"
  by (simp add: roundEven_def)

lemma roundEven_mono:
  assumes "x \<le> y"
  shows "roundEven x \<le> roundEven y"
proof (cases "\<lfloor>x\<rfloor> = \<lfloor>y\<rfloor>")
  case True
  have "x - of_int \<lfloor>x\<rfloor> \<le> y - of_int \<lfloor>y\<rfloor>" using assms True by simp
  then show ?thesis unfolding roundEven_def Let_def True by auto
next
  case False
  then have "\<lfloor>x\<rfloor> + 1 \<le> \<lfloor>y\<rfloor>" using floor_mono [OF assms] by linarith
  then show ?thesis using roundEven_range [of x] roundEven_range [of y] by linarith
qed

lemma pow2_pos [simp]: "0 < (2::rat) powi e"
  by (simp add: zero_less_power_int)

lemma pow2_add: "(2::rat) powi (a + b) = 2 powi a * 2 powi b"
  by (simp add: power_int_add)

lemma pow2_diff: "(2::rat) powi (a - b) = 2 powi a / 2 powi b"
  by (simp add: power_int_diff)

lemma pow2_le: "a \<le> b \<Longrightarrow> (2::rat) powi a \<le> 2 powi b"
  by (simp add: power_int_increasing)

lemma pow2_less: "a < b \<Longrightarrow> (2::rat) powi a < 2 powi b"
  by (simp add: power_int_strict_increasing)

lemma pow2_of_int: "0 \<le> e \<Longrightarrow> (2::rat) powi e = of_int (2 ^ nat e)"
  by (simp add: power_int_def)

lemma bitlen_rat_bounds:
  assumes "0 < p"
  shows "(2::rat) powi (bitlen p - 1) \<le> of_int p" "of_int p < (2::rat) powi (bitlen p)"
proof -
  have b: "1 \<le> bitlen p" using assms by (simp add: bitlen_alt_def)
  from bitlen_bounds [OF assms]
  have "(2::int) ^ nat (bitlen p - 1) \<le> p" "p < 2 ^ nat (bitlen p)" by simp_all
  then have "(of_int (2 ^ nat (bitlen p - 1))::rat) \<le> of_int p"
    "(of_int p::rat) < of_int (2 ^ nat (bitlen p))"
    by (simp_all only: of_int_le_iff of_int_less_iff)
  then show "(2::rat) powi (bitlen p - 1) \<le> of_int p" "of_int p < (2::rat) powi (bitlen p)"
    using b by (simp_all add: pow2_of_int)
qed

lemma floorLog2_bounds:
  assumes "0 < x"
  shows "2 powi (floorLog2 x) \<le> x" "x < 2 powi (floorLog2 x + 1)"
proof -
  obtain p q where pq: "quotient_of x = (p, q)" by (cases "quotient_of x")
  have q: "0 < q" using pq by (rule quotient_of_denom_pos)
  have x: "x = of_int p / of_int q" using pq by (rule quotient_of_div)
  have p: "0 < p" using assms q unfolding x by (simp add: zero_less_divide_iff)
  define d where "d = bitlen p - bitlen q"
  note bp = bitlen_rat_bounds [OF p] and bq = bitlen_rat_bounds [OF q]
  have qr: "(0::rat) < of_int q" using q by simp
  have "x < 2 powi (bitlen p) / 2 powi (bitlen q - 1)"
    unfolding x using bp(2) bq(1) qr p
    by (intro frac_less) simp_all
  also have "\<dots> = 2 powi (d + 1)"
    unfolding d_def pow2_diff [symmetric] by (simp add: algebra_simps)
  finally have up: "x < 2 powi (d + 1)" .
  have "2 powi (bitlen p - 1) / 2 powi (bitlen q) < x"
    unfolding x using bp(1) bq(2) qr
    by (intro frac_less2) simp_all
  moreover have "2 powi (bitlen p - 1) / 2 powi (bitlen q) = (2::rat) powi (d - 1)"
    unfolding d_def pow2_diff [symmetric] by (simp add: algebra_simps)
  ultimately have lo: "2 powi (d - 1) < x" by simp
  have e: "floorLog2 x = (if 2 powi d \<le> x then d else d - 1)"
    by (simp add: floorLog2_def pq d_def Let_def)
  show "2 powi (floorLog2 x) \<le> x" unfolding e using lo by auto
  show "x < 2 powi (floorLog2 x + 1)" unfolding e using up by auto
qed

lemma floorLog2_unique:
  assumes "2 powi e \<le> x" "x < 2 powi (e + 1)"
  shows "floorLog2 x = e"
proof -
  have x: "0 < x" using assms(1) pow2_pos [of e] by linarith
  note b = floorLog2_bounds [OF x]
  have "(2::rat) powi e < 2 powi (floorLog2 x + 1)" using assms(1) b(2) by linarith
  then have "e < floorLog2 x + 1"
    by (metis pow2_le not_le)
  moreover have "(2::rat) powi (floorLog2 x) < 2 powi (e + 1)" using assms(2) b(1) by linarith
  then have "floorLog2 x < e + 1"
    by (metis pow2_le not_le)
  ultimately show ?thesis by linarith
qed

lemma floorLog2_mono:
  assumes "0 < x" "x \<le> y"
  shows "floorLog2 x \<le> floorLog2 y"
proof -
  have y: "0 < y" using assms by linarith
  have "2 powi (floorLog2 x) < (2::rat) powi (floorLog2 y + 1)"
    using floorLog2_bounds(1) [OF assms(1)] floorLog2_bounds(2) [OF y] assms(2) by linarith
  then have "floorLog2 x < floorLog2 y + 1" by (metis pow2_le not_le)
  then show ?thesis by linarith
qed

lemma roundPos_bounds:
  assumes "0 < x"
  shows "2 powi (floorLog2 x) \<le> roundPos x" "roundPos x \<le> 2 powi (floorLog2 x + 1)"
proof -
  define e where "e = floorLog2 x"
  define u :: rat where "u = 2 powi (e - 52)"
  have u: "0 < u" by (simp add: u_def)
  have r: "roundPos x = of_int (roundEven (x / u)) * u"
    using assms by (simp add: roundPos_def Let_def u_def e_def)
  note b = floorLog2_bounds [OF assms, folded e_def]
  have lo: "2 powi e = 2 ^ 52 * u" and hi: "2 powi (e + 1) = 2 ^ 53 * u"
    unfolding u_def by (simp_all add: pow2_diff pow2_add)
  have "(2::rat) ^ 52 \<le> x / u" using b(1) u unfolding lo by (simp add: pos_le_divide_eq)
  then have "roundEven (of_int (2 ^ 52)) \<le> roundEven (x / u)"
    by (intro roundEven_mono) simp
  then have "(2::int) ^ 52 \<le> roundEven (x / u)" by (simp only: roundEven_of_int)
  then have "(of_int (2 ^ 52)::rat) \<le> of_int (roundEven (x / u))" by (simp only: of_int_le_iff)
  then show "2 powi (floorLog2 x) \<le> roundPos x"
    unfolding r e_def [symmetric] lo using u by simp
  have "x / u \<le> (2::rat) ^ 53" using b(2) u unfolding hi by (simp add: pos_divide_le_eq)
  then have "roundEven (x / u) \<le> roundEven (of_int (2 ^ 53))"
    by (intro roundEven_mono) simp
  then have "roundEven (x / u) \<le> (2::int) ^ 53" by (simp only: roundEven_of_int)
  then have "(of_int (roundEven (x / u))::rat) \<le> of_int (2 ^ 53)" by (simp only: of_int_le_iff)
  then show "roundPos x \<le> 2 powi (floorLog2 x + 1)"
    unfolding r e_def [symmetric] hi using u by simp
qed

lemma roundPos_nonneg: "0 \<le> x \<Longrightarrow> 0 \<le> roundPos x"
proof (cases "x = 0")
  case True
  then show ?thesis by (simp add: roundPos_def)
next
  case False
  assume "0 \<le> x"
  then have "0 < x" using False by simp
  from roundPos_bounds(1) [OF this] pow2_pos [of "floorLog2 x"] show ?thesis by linarith
qed

lemma roundPos_mono:
  assumes "0 \<le> x" "x \<le> y"
  shows "roundPos x \<le> roundPos y"
proof (cases "x = 0")
  case True
  then show ?thesis using roundPos_nonneg [of y] assms by (simp add: roundPos_def)
next
  case False
  then have x: "0 < x" using assms by simp
  then have y: "0 < y" using assms by linarith
  show ?thesis
  proof (cases "floorLog2 x = floorLog2 y")
    case True
    define u :: rat where "u = 2 powi (floorLog2 y - 52)"
    have u: "0 < u" by (simp add: u_def)
    have "x / u \<le> y / u" using assms(2) u by (simp add: divide_right_mono)
    then have "(of_int (roundEven (x / u))::rat) \<le> of_int (roundEven (y / u))"
      by (simp only: of_int_le_iff roundEven_mono)
    then show ?thesis
      using x y u by (simp add: roundPos_def Let_def True u_def [symmetric])
  next
    case False
    then have "floorLog2 x + 1 \<le> floorLog2 y" using floorLog2_mono [OF x assms(2)] by linarith
    then have "(2::rat) powi (floorLog2 x + 1) \<le> 2 powi (floorLog2 y)" by (rule pow2_le)
    then show ?thesis
      using roundPos_bounds(2) [OF x] roundPos_bounds(1) [OF y] by linarith
  qed
qed

lemma roundDouble_mono:
  assumes "x \<le> y"
  shows "roundDouble x \<le> roundDouble y"
proof -
  consider "0 \<le> x" | "x < 0" "0 \<le> y" | "y < 0" by linarith
  then show ?thesis
  proof cases
    case 1
    then show ?thesis using assms roundPos_mono [OF 1 assms] by (simp add: roundDouble_def)
  next
    case 2
    then show ?thesis
      using roundPos_nonneg [of "- x"] roundPos_nonneg [of y] by (simp add: roundDouble_def)
  next
    case 3
    then have "roundPos (- y) \<le> roundPos (- x)" using assms by (intro roundPos_mono) simp_all
    then show ?thesis using 3 assms by (simp add: roundDouble_def)
  qed
qed

lemma roundDouble_less_imp: "roundDouble x < roundDouble y \<Longrightarrow> x < y"
  using roundDouble_mono [of y x] by linarith

lemma roundPos_exact:
  assumes k: "0 < k" "k < 2 ^ 53"
  shows "roundPos (of_int k * 2 powi s) = of_int k * 2 powi s"
proof -
  define x :: rat where "x = of_int k * 2 powi s"
  have x: "0 < x" using k by (simp add: x_def)
  define e where "e = floorLog2 x"
  note b = floorLog2_bounds [OF x, folded e_def]
  have "(2::rat) powi e < 2 ^ 53 * 2 powi s"
  proof -
    have "(of_int k::rat) < of_int (2 ^ 53)" using k(2) by (simp only: of_int_less_iff)
    then have "x < 2 ^ 53 * 2 powi s" unfolding x_def by simp
    with b(1) show ?thesis by linarith
  qed
  also have "(2::rat) ^ 53 * 2 powi s = 2 powi (53 + s)" by (simp add: pow2_add)
  finally have "e < 53 + s" by (metis pow2_le not_le)
  then have n: "0 \<le> s - e + 52" by simp
  have "x / 2 powi (e - 52) = of_int k * 2 powi (s - (e - 52))"
    unfolding x_def by (simp add: pow2_diff)
  also have "s - (e - 52) = s - e + 52" by simp
  also have "(2::rat) powi (s - e + 52) = of_int (2 ^ nat (s - e + 52))" using n by (rule pow2_of_int)
  finally have "x / 2 powi (e - 52) = of_int (k * 2 ^ nat (s - e + 52))" by simp
  then have "roundEven (x / 2 powi (e - 52)) = k * 2 ^ nat (s - e + 52)"
    by (simp only: roundEven_of_int)
  then have "roundPos x = of_int (k * 2 ^ nat (s - e + 52)) * 2 powi (e - 52)"
    using x by (simp add: roundPos_def Let_def e_def [symmetric])
  also have "\<dots> = of_int k * (2 powi (s - e + 52) * 2 powi (e - 52))"
    using n by (simp add: pow2_of_int)
  also have "2 powi (s - e + 52) * 2 powi (e - 52) = (2::rat) powi s"
    unfolding pow2_add [symmetric] by simp
  finally show ?thesis unfolding x_def .
qed

lemma roundDouble_exact:
  assumes "0 \<le> k" "k < 2 ^ 53"
  shows "roundDouble (of_int k * 2 powi s) = of_int k * 2 powi s"
proof (cases "k = 0")
  case True
  then show ?thesis by (simp add: roundDouble_def roundPos_def)
next
  case False
  then have k: "0 < k" using assms by simp
  then have "\<not> (of_int k * 2 powi s < (0::rat))" by (simp add: not_less mult_nonneg_nonneg)
  then show ?thesis using roundPos_exact [OF k assms(2)] by (simp add: roundDouble_def)
qed

lemma roundDouble_of_int: "0 \<le> k \<Longrightarrow> k < 2 ^ 53 \<Longrightarrow> roundDouble (of_int k) = of_int k"
  using roundDouble_exact [of k 0] by simp

lemma roundDouble_quarters:
  "0 \<le> k \<Longrightarrow> k < 2 ^ 53 \<Longrightarrow> roundDouble (of_int k / 4) = of_int k / 4"
  using roundDouble_exact [of k "- 2"] by (simp add: power_int_minus field_simps)

lemma roundDouble_0 [simp]: "roundDouble 0 = 0"
  by (simp add: roundDouble_def roundPos_def)

lemma roundDouble_1 [simp]: "roundDouble 1 = 1"
  using roundDouble_of_int [of 1] by simp

lemma roundDouble_nonneg: "0 \<le> x \<Longrightarrow> 0 \<le> roundDouble x"
  using roundDouble_mono [of 0 x] by simp

section \<open>The distance matrix is square and symmetric\<close>

lemma squareMatrix_nth: "squareMatrix n m \<Longrightarrow> a < n \<Longrightarrow> length (m ! a) = n"
  by (simp add: squareMatrix_def)

lemma squareMatrix_set2: "squareMatrix n m \<Longrightarrow> squareMatrix n (set2 m a b v)"
proof -
  assume sq: "squareMatrix n m"
  have "length r = n" if "r \<in> set (m[a := (m ! a)[b := v]])" for r
  proof -
    from that have "r = (m ! a)[b := v] \<and> a < length m \<or> r \<in> set m"
      by (metis insert_iff list_update_beyond not_le_imp_less set_update_subset_insert subsetD)
    then show ?thesis using sq by (auto simp: squareMatrix_def)
  qed
  then show ?thesis using sq by (simp add: squareMatrix_def set2_def)
qed

lemma set2_entry:
  "squareMatrix n m \<Longrightarrow> a < n \<Longrightarrow> b < n \<Longrightarrow> x < n \<Longrightarrow> y < n \<Longrightarrow>
   set2 m a b v ! x ! y = (if x = a \<and> y = b then v else m ! x ! y)"
proof -
  assume sq: "squareMatrix n m" and b: "a < n" "b < n" "x < n" "y < n"
  have len: "length m = n" "length (m ! a) = n" "length (m ! x) = n"
    using sq b by (simp_all add: squareMatrix_def)
  show ?thesis
  proof (cases "x = a")
    case True
    then show ?thesis using len b by (simp add: set2_def nth_list_update)
  next
    case False
    then show ?thesis using len b by (simp add: set2_def)
  qed
qed

lemma symmetric_set2_pair:
  assumes "squareMatrix n m" "symmetricMatrix m" "i < n" "j < n"
  shows "symmetricMatrix (set2 (set2 m j i d) i j d)"
proof -
  have sq: "squareMatrix n (set2 m j i d)" using assms(1) by (rule squareMatrix_set2)
  have len: "length (set2 (set2 m j i d) i j d) = n"
    using squareMatrix_set2 [OF sq] by (simp add: squareMatrix_def)
  have e: "set2 (set2 m j i d) i j d ! x ! y =
        (if x = i \<and> y = j \<or> x = j \<and> y = i then d else m ! x ! y)"
    if "x < n" "y < n" for x y
  proof -
    have e1: "set2 (set2 m j i d) i j d ! x ! y =
          (if x = i \<and> y = j then d else set2 m j i d ! x ! y)"
      using set2_entry [OF sq assms(3,4) that] .
    have e2: "set2 m j i d ! x ! y = (if x = j \<and> y = i then d else m ! x ! y)"
      using set2_entry [OF assms(1) assms(4,3) that] .
    show ?thesis unfolding e1 e2 by presburger
  qed
  have s: "m ! x ! y = m ! y ! x" if "x < n" "y < n" for x y
  proof -
    have "length m = n" using assms(1) by (simp add: squareMatrix_def)
    with assms(2) that show ?thesis unfolding symmetricMatrix_def by blast
  qed
  show ?thesis
    unfolding symmetricMatrix_def len
  proof (intro allI impI)
    fix a b assume ab: "a < n" "b < n"
    show "set2 (set2 m j i d) i j d ! a ! b = set2 (set2 m j i d) i j d ! b ! a"
      unfolding e [OF ab] e [OF ab(2,1)] using s [OF ab] by auto
  qed
qed

lemma fillRow_wellformed:
  "squareMatrix n m \<Longrightarrow> symmetricMatrix m \<Longrightarrow> i < n \<Longrightarrow> \<forall>j \<in> set js. j < n \<Longrightarrow>
   squareMatrix n (fillRow ps f cp i js m) \<and> symmetricMatrix (fillRow ps f cp i js m)"
proof (induction js arbitrary: m)
  case Nil
  then show ?case by simp
next
  case (Cons j js)
  define d where "d = (if map_of cp i = Some j then 0 else f (themes (ps ! i)) (themes (ps ! j)))"
  have "squareMatrix n (set2 (set2 m j i d) i j d)"
    using Cons.prems(1) by (intro squareMatrix_set2)
  moreover have "symmetricMatrix (set2 (set2 m j i d) i j d)"
    using Cons.prems by (intro symmetric_set2_pair [where n = n]) auto
  ultimately show ?case
    using Cons.IH [of "set2 (set2 m j i d) i j d"] Cons.prems(3,4)
    by (simp add: d_def Let_def)
qed

lemma fillRows_wellformed:
  "squareMatrix n m \<Longrightarrow> symmetricMatrix m \<Longrightarrow> \<forall>i \<in> set is. i < n \<Longrightarrow>
   squareMatrix n (fillRows ps f cp n is m) \<and> symmetricMatrix (fillRows ps f cp n is m)"
proof (induction "is" arbitrary: m)
  case Nil
  then show ?case by simp
next
  case (Cons i "is")
  have "squareMatrix n (fillRow ps f cp i [i + 1 ..< n] m) \<and>
        symmetricMatrix (fillRow ps f cp i [i + 1 ..< n] m)"
    using Cons.prems by (intro fillRow_wellformed) auto
  then show ?case using Cons.IH Cons.prems(3) by simp
qed

lemma createDistanceMatrix_wellformed:
  "squareMatrix (length ps) (createDistanceMatrix ps f cp) \<and>
   symmetricMatrix (createDistanceMatrix ps f cp)"
  unfolding createDistanceMatrix_def Let_def
  by (intro fillRows_wellformed) (auto simp: squareMatrix_def symmetricMatrix_def)

lemma fillRow_entries:
  assumes z: "P 0" and f: "\<And>x y. P (f x y)"
  shows "squareMatrix n m \<Longrightarrow> \<forall>a < n. \<forall>b < n. P (m ! a ! b) \<Longrightarrow> i < n \<Longrightarrow>
     \<forall>j \<in> set js. j < n \<Longrightarrow>
     squareMatrix n (fillRow ps f cp i js m) \<and>
     (\<forall>a < n. \<forall>b < n. P (fillRow ps f cp i js m ! a ! b))"
proof (induction js arbitrary: m)
  case Nil
  then show ?case by simp
next
  case (Cons j js)
  define d where "d = (if map_of cp i = Some j then 0 else f (themes (ps ! i)) (themes (ps ! j)))"
  have d: "P d" using z f by (simp add: d_def)
  have ij: "i < n" "j < n" using Cons.prems by simp_all
  have sq1: "squareMatrix n (set2 m j i d)" using Cons.prems(1) by (rule squareMatrix_set2)
  have sq2: "squareMatrix n (set2 (set2 m j i d) i j d)" using sq1 by (rule squareMatrix_set2)
  have "P (set2 (set2 m j i d) i j d ! a ! b)" if "a < n" "b < n" for a b
    unfolding set2_entry [OF sq1 ij that] set2_entry [OF Cons.prems(1) ij(2,1) that]
    using d Cons.prems(2) that by simp
  then show ?case
    using Cons.IH [OF sq2] Cons.prems(3,4) by (simp add: d_def Let_def)
qed

lemma fillRows_entries:
  assumes z: "P 0" and f: "\<And>x y. P (f x y)"
  shows "squareMatrix n m \<Longrightarrow> \<forall>a < n. \<forall>b < n. P (m ! a ! b) \<Longrightarrow> \<forall>i \<in> set is. i < n \<Longrightarrow>
     squareMatrix n (fillRows ps f cp n is m) \<and>
     (\<forall>a < n. \<forall>b < n. P (fillRows ps f cp n is m ! a ! b))"
proof (induction "is" arbitrary: m)
  case Nil
  then show ?case by simp
next
  case (Cons i "is")
  have "squareMatrix n (fillRow ps f cp i [i + 1 ..< n] m) \<and>
        (\<forall>a < n. \<forall>b < n. P (fillRow ps f cp i [i + 1 ..< n] m ! a ! b))"
    using Cons.prems by (intro fillRow_entries [where P = P] z f) auto
  then show ?case using Cons.IH Cons.prems(3) by simp
qed

lemma createDistanceMatrix_entries:
  assumes "P 0" "\<And>x y. P (f x y)" "a < length ps" "b < length ps"
  shows "P (createDistanceMatrix ps f cp ! a ! b)"
proof -
  have "squareMatrix (length ps) (createDistanceMatrix ps f cp) \<and>
        (\<forall>a < length ps. \<forall>b < length ps. P (createDistanceMatrix ps f cp ! a ! b))"
    unfolding createDistanceMatrix_def Let_def
    using assms(1) by (intro fillRows_entries [where P = P] assms(1,2)) (auto simp: squareMatrix_def)
  then show ?thesis using assms(3,4) by blast
qed

lemma commonalityDistance_quarter: "\<exists>k \<in> {0 .. 4::int}. commonalityDistance x y = of_int k / 4"
proof -
  define c where "c = min (length (filter (\<lambda>t. t \<in> set y) x)) 4"
  have "commonalityDistance x y = of_int (4 - int c) / 4"
    by (simp add: commonalityDistance_def Let_def c_def)
  moreover have "4 - int c \<in> {0 .. 4}" by (simp add: c_def)
  ultimately show ?thesis by blast
qed

lemma createDistanceMatrix_quarter:
  "quarterMatrix (length ps) (createDistanceMatrix ps commonalityDistance cp)"
  unfolding quarterMatrix_def
proof (intro allI impI)
  fix a b assume "a < length ps" "b < length ps"
  then show "\<exists>k \<in> {0 .. 4::int}. createDistanceMatrix ps commonalityDistance cp ! a ! b = of_int k / 4"
    by (intro createDistanceMatrix_entries [where P = "\<lambda>v. \<exists>k \<in> {0 .. 4::int}. v = of_int k / 4"]
          commonalityDistance_quarter) auto
qed

lemma distAt_square:
  "squareMatrix n m \<Longrightarrow> a < n \<Longrightarrow> b < n \<Longrightarrow> distAt m a b = Inr (Fin (m ! a ! b))"
  by (simp add: distAt_def elemAt_def squareMatrix_def)

lemma distAt_row: "a < length m \<Longrightarrow> \<exists>d. distAt m a b = Inr d"
  by (simp add: distAt_def elemAt_def split: option.splits)

lemma hasCommonThemes_defined:
  "a < length ps \<Longrightarrow> b < length ps \<Longrightarrow> \<exists>c. hasCommonThemes (elemAt ps a) (elemAt ps b) = Inr c"
  by (auto simp: hasCommonThemes_def elemAt_def)

subsection \<open>The pair map holds participant indices\<close>

lemma findIndex_less: "findIndex ps nm = Some k \<Longrightarrow> k < length ps"
  by (induction ps arbitrary: k) (auto split: if_splits)

lemma set_map_set: "set (map_set m k v) \<subseteq> insert (k, v) (set m)"
  by (induction m k v rule: map_set.induct) auto

lemma findConstantPairsFrom_bound:
  "\<forall>(a, b) \<in> set acc. a < length ps \<and> b < length ps \<Longrightarrow>
   \<forall>(a, b) \<in> set (findConstantPairsFrom ps names acc). a < length ps \<and> b < length ps"
proof (induction names arbitrary: acc)
  case Nil
  then show ?case by simp
next
  case (Cons p names)
  obtain name1 name2 where p: "p = (name1, name2)" by (cases p)
  show ?case
  proof (cases "findIndex ps name1")
    case None
    then show ?thesis using Cons.IH [OF Cons.prems] by (simp add: p)
  next
    case i1: (Some idx1)
    show ?thesis
    proof (cases "findIndex ps name2")
      case None
      then show ?thesis using Cons.IH [OF Cons.prems] i1 by (simp add: p)
    next
      case i2: (Some idx2)
      have b: "idx1 < length ps" "idx2 < length ps"
        using i1 i2 by (auto dest: findIndex_less)
      have "set (map_set (map_set acc idx1 idx2) idx2 idx1)
              \<subseteq> insert (idx2, idx1) (insert (idx1, idx2) (set acc))"
        using set_map_set [of "map_set acc idx1 idx2" idx2 idx1]
          set_map_set [of acc idx1 idx2] by blast
      then have "\<forall>(a, b) \<in> set (map_set (map_set acc idx1 idx2) idx2 idx1).
              a < length ps \<and> b < length ps"
        using b Cons.prems by blast
      from Cons.IH [OF this] show ?thesis
        using i1 i2 by (simp add: p)
    qed
  qed
qed

lemma findConstantPairs_bound:
  "(a, b) \<in> set (findConstantPairs ps) \<Longrightarrow> a < length ps \<and> b < length ps"
  using findConstantPairsFrom_bound [of "[]" ps CONSTANT_PAIRS_NAMES]
  by (auto simp: findConstantPairs_def)

section \<open>The route constructor returns a permutation\<close>

lemma scanCommon_result:
  assumes "current < length ps" "current < length dm" "\<forall>j \<in> set js. j < length ps"
  shows "\<exists>next' best'. scanCommon dm ps visited current js (nxt, best) = Inr (next', best') \<and>
           (next' = nxt \<or> (\<exists>j \<in> set js. next' = Some j \<and> j \<notin> visited))"
  using assms(3)
proof (induction js arbitrary: nxt best)
  case Nil
  then show ?case by simp
next
  case (Cons j js)
  from Cons.prems have j: "j < length ps" and js: "\<forall>j \<in> set js. j < length ps" by auto
  obtain c where c: "hasCommonThemes (elemAt ps current) (elemAt ps j) = Inr c"
    using hasCommonThemes_defined [OF assms(1) j] by blast
  obtain d where d: "distAt dm current j = Inr d"
    using distAt_row [OF assms(2)] by blast
  from Cons.IH [OF js, of nxt best] Cons.IH [OF js, of "Some j" d]
  show ?case by (auto simp: c d)
qed

lemma scanNearest_result:
  assumes "current < length dm"
  shows "\<exists>next' best'. scanNearest dm visited current js (nxt, best) = Inr (next', best') \<and>
           (next' = nxt \<or> (\<exists>j \<in> set js. next' = Some j \<and> j \<notin> visited))"
proof (induction js arbitrary: nxt best)
  case Nil
  then show ?case by simp
next
  case (Cons j js)
  obtain d where d: "distAt dm current j = Inr d"
    using distAt_row [OF assms] by blast
  from Cons.IH [of nxt best] Cons.IH [of "Some j" d]
  show ?case by (auto simp: d)
qed

lemma firstUnvisited_Some:
  "\<exists>j \<in> set js. j \<notin> visited \<Longrightarrow> \<exists>j \<in> set js. firstUnvisited visited js = Some j \<and> j \<notin> visited"
  by (induction js) auto

lemma pickNext_result:
  assumes cur: "current < n" and len: "length dm = n" "length ps = n"
    and pr: "\<And>b. map_of cp current = Some b \<Longrightarrow> b < n"
    and un: "\<exists>j < n. j \<notin> visited"
  shows "\<exists>nxt. pickNext dm ps cp n visited current = Inr (Some nxt) \<and> nxt < n \<and> nxt \<notin> visited"
proof -
  obtain n1 b1 where s1: "scanCommon dm ps visited current [0 ..< n] (None, Infinity) = Inr (n1, b1)"
    and n1: "n1 = None \<or> (\<exists>j \<in> set [0 ..< n]. n1 = Some j \<and> j \<notin> visited)"
    using scanCommon_result [of current ps dm "[0 ..< n]" visited None Infinity] cur len
    by auto
  obtain n2 b2 where s2: "scanNearest dm visited current [0 ..< n] (None, b1) = Inr (n2, b2)"
    and n2: "n2 = None \<or> (\<exists>j \<in> set [0 ..< n]. n2 = Some j \<and> j \<notin> visited)"
    using scanNearest_result [of current dm visited "[0 ..< n]" None b1] cur len
    by auto
  have "\<exists>j \<in> set [0 ..< n]. j \<notin> visited" using un by auto
  from firstUnvisited_Some [OF this]
  obtain j0 where j0: "firstUnvisited visited [0 ..< n] = Some j0" "j0 < n" "j0 \<notin> visited"
    by auto
  define scans where "scans =
    (case scanCommon dm ps visited current [0 ..< n] (None, Infinity) of
       Inl e \<Rightarrow> Inl e
     | Inr (nxt, bestDist) \<Rightarrow>
         (if nxt = None then scanNearest dm visited current [0 ..< n] (nxt, bestDist)
          else Inr (nxt, bestDist)))"
  have scans: "\<exists>n3 b3. scans = Inr (n3, b3) \<and> (n3 = None \<or> (\<exists>j < n. n3 = Some j \<and> j \<notin> visited))"
    using s1 n1 s2 n2 by (auto simp: scans_def)
  then obtain n3 b3 where n3: "scans = Inr (n3, b3)"
      "n3 = None \<or> (\<exists>j < n. n3 = Some j \<and> j \<notin> visited)" by blast
  show ?thesis
  proof (cases "map_of cp current")
    case None
    then have "pickNext dm ps cp n visited current =
        (if n3 = None then Inr (firstUnvisited visited [0 ..< n]) else Inr n3)"
      using n3(1) by (simp add: pickNext_def scans_def)
    then show ?thesis using n3(2) j0 by auto
  next
    case (Some pairIdx)
    show ?thesis
    proof (cases "pairIdx \<in> visited")
      case True
      then have "pickNext dm ps cp n visited current =
          (if n3 = None then Inr (firstUnvisited visited [0 ..< n]) else Inr n3)"
        using n3(1) Some by (simp add: pickNext_def scans_def)
      then show ?thesis using n3(2) j0 by auto
    next
      case False
      then have "pickNext dm ps cp n visited current = Inr (Some pairIdx)"
        using Some by (simp add: pickNext_def)
      then show ?thesis using False pr [OF Some] by simp
    qed
  qed
qed

lemma nnLoop_result:
  "length dm = n \<Longrightarrow> length ps = n \<Longrightarrow> \<forall>(a, b) \<in> set cp. b < n \<Longrightarrow>
   distinct route \<Longrightarrow> set route = visited \<Longrightarrow> visited \<subseteq> {..<n} \<Longrightarrow> current \<in> visited \<Longrightarrow>
   \<exists>r. nnLoop dm ps cp n route visited current = Inr r \<and> distinct r \<and> set r = {..<n}"
proof (induction dm ps cp n route visited current rule: nnLoop.induct)
  case (1 dm ps cp n route visited current)
  note len = "1.prems"(1,2)
  show ?case
  proof (cases "length route < n")
    case False
    have "card (set route) = length route" using "1.prems"(4) by (rule distinct_card)
    moreover have sub: "set route \<subseteq> {..<n}" using "1.prems"(5,6) by simp
    moreover from sub have "card (set route) \<le> n"
      using card_mono [of "{..<n}" "set route"] by simp
    ultimately have "set route = {..<n}"
      using False by (intro card_subset_eq) auto
    then show ?thesis using False "1.prems" by (subst nnLoop.simps) simp
  next
    case True
    have "card visited = length route"
      using distinct_card [OF "1.prems"(4)] "1.prems"(5) by simp
    then have "visited \<noteq> {..<n}" using True by auto
    then have un: "\<exists>j < n. j \<notin> visited" using "1.prems" by auto
    have cur: "current < n" using "1.prems" by auto
    have prc: "\<And>b. map_of cp current = Some b \<Longrightarrow> b < n"
      using "1.prems"(3) by (auto dest: map_of_SomeD)
    obtain nxt where nxt: "pickNext dm ps cp n visited current = Inr (Some nxt)"
        "nxt < n" "nxt \<notin> visited"
      using pickNext_result [OF cur len prc un] by blast
    have "\<exists>r. nnLoop dm ps cp n (route @ [nxt]) (insert nxt visited) nxt = Inr r \<and>
            distinct r \<and> set r = {..<n}"
      using nxt "1.prems" by (intro "1.IH" [OF True nxt(1)]) auto
    then show ?thesis using True nxt(1) by (subst nnLoop.simps) simp
  qed
qed

lemma nearestNeighbor_permutation:
  assumes "length dm = n" "length ps = n" "\<forall>(a, b) \<in> set cp. b < n" "startIdx < n"
  shows "\<exists>r. nearestNeighborWithCommonThemes dm ps cp startIdx = Inr r \<and>
           distinct r \<and> set r = {..<n}"
  unfolding nearestNeighborWithCommonThemes_def assms(1)
  using assms(4) by (intro nnLoop_result [OF assms(1,2,3)]) auto

section \<open>Path cost and segment reversal\<close>

lemma pathCost_Cons: "xs \<noteq> [] \<Longrightarrow> pathCost m (a # xs) = m ! a ! hd xs + pathCost m xs"
  by (cases xs) simp_all

lemma pathCost_append:
  "xs \<noteq> [] \<Longrightarrow> ys \<noteq> [] \<Longrightarrow>
   pathCost m (xs @ ys) = pathCost m xs + m ! last xs ! hd ys + pathCost m ys"
proof (induction xs)
  case Nil
  then show ?case by simp
next
  case (Cons a xs)
  show ?case
  proof (cases "xs = []")
    case True
    then show ?thesis using Cons.prems by (simp add: pathCost_Cons)
  next
    case False
    then show ?thesis using Cons by (simp add: pathCost_Cons)
  qed
qed

lemma pathCost_rev:
  "(\<And>a b. a \<in> set xs \<Longrightarrow> b \<in> set xs \<Longrightarrow> m ! a ! b = m ! b ! a) \<Longrightarrow>
   pathCost m (rev xs) = pathCost m xs"
proof (induction xs)
  case Nil
  then show ?case by simp
next
  case (Cons a xs)
  show ?case
  proof (cases "xs = []")
    case True
    then show ?thesis by simp
  next
    case False
    have "pathCost m (rev xs) = pathCost m xs" using Cons.prems by (intro Cons.IH) auto
    moreover have "m ! hd xs ! a = m ! a ! hd xs" using False Cons.prems [of "hd xs" a] by simp
    ultimately show ?thesis
      using False by (simp add: pathCost_append pathCost_Cons last_rev)
  qed
qed

lemma reverseSegment_split:
  assumes "1 \<le> i" "i < j" "j + 1 < length r"
  defines "P \<equiv> take i r" and "S \<equiv> take (j + 1 - i) (drop i r)" and "Q \<equiv> drop (j + 1) r"
  shows "r = P @ S @ Q" "reverseSegment r i j = P @ rev S @ Q"
    "P \<noteq> []" "S \<noteq> []" "Q \<noteq> []"
    "last P = r ! (i - 1)" "hd S = r ! i" "last S = r ! j" "hd Q = r ! (j + 1)"
proof -
  show "reverseSegment r i j = P @ rev S @ Q" by (simp add: reverseSegment_def P_def S_def Q_def)
  have "take (j + 1 - i) (drop i r) @ drop (j + 1) r = drop i r"
    using assms(1-3) by (metis Nat.add_diff_assoc2 add.commute append_take_drop_id drop_drop le_add_diff_inverse less_or_eq_imp_le trans_less_add1)
  then show "r = P @ S @ Q" by (simp add: P_def S_def Q_def)
  show "P \<noteq> []" "S \<noteq> []" "Q \<noteq> []" using assms(1-3) by (auto simp: P_def S_def Q_def)
  have "take i r \<noteq> []" using assms(1-3) by auto
  from last_conv_nth [OF this] show "last P = r ! (i - 1)"
    using assms(1-3) by (simp add: P_def min_def)
  show "hd S = r ! i" using assms(1-3) by (simp add: S_def hd_conv_nth)
  have "take (j + 1 - i) (drop i r) \<noteq> []" using assms(1-3) by auto
  moreover have "length (take (j + 1 - i) (drop i r)) = j + 1 - i"
    using assms(1-3) by simp
  ultimately have "last S = S ! (j + 1 - i - 1)"
    unfolding S_def by (metis last_conv_nth)
  also have "\<dots> = r ! j" using assms(1-3) by (simp add: S_def)
  finally show "last S = r ! j" .
  show "hd Q = r ! (j + 1)" using assms(1-3) by (simp add: Q_def hd_drop_conv_nth)
qed

lemma mset_reverseSegment:
  assumes "1 \<le> i" "i < j" "j + 1 < length r"
  shows "mset (reverseSegment r i j) = mset r"
proof -
  note sp = reverseSegment_split [OF assms]
  have "mset (reverseSegment r i j) = mset (take i r @ take (j + 1 - i) (drop i r) @ drop (j + 1) r)"
    unfolding sp(2) by simp
  also have "\<dots> = mset r" using sp(1) by simp
  finally show ?thesis .
qed

lemma pathCost_reverseSegment:
  assumes "1 \<le> i" "i < j" "j + 1 < length r"
    and sym: "\<And>a b. a \<in> set r \<Longrightarrow> b \<in> set r \<Longrightarrow> m ! a ! b = m ! b ! a"
  shows "pathCost m (reverseSegment r i j) =
         pathCost m r - (m ! (r ! (i - 1)) ! (r ! i) + m ! (r ! j) ! (r ! (j + 1)))
           + (m ! (r ! (i - 1)) ! (r ! j) + m ! (r ! i) ! (r ! (j + 1)))"
proof -
  define P where "P = take i r"
  define S where "S = take (j + 1 - i) (drop i r)"
  define Q where "Q = drop (j + 1) r"
  note sp = reverseSegment_split [OF assms(1-3), folded P_def S_def Q_def]
  have sub: "set S \<subseteq> set r" unfolding S_def by (meson set_drop_subset set_take_subset subset_trans)
  then have rv: "pathCost m (rev S) = pathCost m S"
    by (intro pathCost_rev sym) auto
  have c1: "pathCost m r = pathCost m P + m ! last P ! hd S + (pathCost m S + m ! last S ! hd Q + pathCost m Q)"
    by (subst sp(1)) (simp add: pathCost_append sp(3-5) hd_append)
  have c2: "pathCost m (reverseSegment r i j) =
      pathCost m P + m ! last P ! last S + (pathCost m S + m ! hd S ! hd Q + pathCost m Q)"
    unfolding sp(2) using sp(3-5) by (simp add: pathCost_append hd_append rv hd_rev last_rev)
  show ?thesis unfolding c1 c2 sp(6-9) by simp
qed

section \<open>The 2-opt loop ends, keeping an invariant\<close>

lemma acceptMove_valid:
  assumes sq: "squareMatrix n m" and len: "length ps = n" and r: "set route \<subseteq> {..<n}"
    and b: "1 \<le> i" "i < j" "j + 1 < length route"
  shows "\<exists>acc. acceptMove m ps route i j = Inr acc \<and>
           (acc \<longrightarrow> m ! (route ! (i - 1)) ! (route ! j) + m ! (route ! i) ! (route ! (j + 1))
                  < m ! (route ! (i - 1)) ! (route ! i) + m ! (route ! j) ! (route ! (j + 1)))"
proof -
  have el: "route ! (i - 1) < n" "route ! i < n" "route ! j < n" "route ! (j + 1) < n"
    using r b by (auto simp: subset_iff)
  note d = distAt_square [OF sq el(1,2)] distAt_square [OF sq el(3,4)]
    distAt_square [OF sq el(1,3)] distAt_square [OF sq el(2,4)]
  obtain c1 where c1: "hasCommonThemes (elemAt ps (route ! (i - 1))) (elemAt ps (route ! j)) = Inr c1"
    using hasCommonThemes_defined [of "route ! (i - 1)" ps "route ! j"] el len by auto
  obtain c2 where c2: "hasCommonThemes (elemAt ps (route ! i)) (elemAt ps (route ! (j + 1))) = Inr c2"
    using hasCommonThemes_defined [of "route ! i" ps "route ! (j + 1)"] el len by auto
  show ?thesis
    unfolding acceptMove_def d andThen_def
    using c1 c2 by (auto simp: Let_def dest: roundDouble_less_imp)
qed

lemma scanJ_result:
  assumes sq: "squareMatrix n m" and len: "length ps = n" and r: "set route \<subseteq> {..<n}"
    and i: "1 \<le> i"
  shows "\<forall>j \<in> set js. i < j \<and> j + 1 < length route \<Longrightarrow>
         scanJ m ps cp route i js = Inr None \<or>
         (\<exists>j \<in> set js. scanJ m ps cp route i js = Inr (Some j) \<and>
              \<not> wouldBreakConstantPair route i j cp \<and> acceptMove m ps route i j = Inr True)"
proof (induction js)
  case Nil
  then show ?case by simp
next
  case (Cons j js)
  then have b: "i < j" "j + 1 < length route" by auto
  obtain acc where acc: "acceptMove m ps route i j = Inr acc"
    using acceptMove_valid [OF sq len r i b] by blast
  from Cons show ?case by (auto simp: acc)
qed

lemma scanI_result:
  assumes sq: "squareMatrix n m" and len: "length ps = n" and r: "set route \<subseteq> {..<n}"
  shows "\<forall>i \<in> set is. 1 \<le> i \<Longrightarrow>
         scanI m ps cp route is = Inr None \<or>
         (\<exists>i j. scanI m ps cp route is = Inr (Some (i, j)) \<and> 1 \<le> i \<and> i < j \<and>
              j + 1 < length route \<and>
              \<not> wouldBreakConstantPair route i j cp \<and> acceptMove m ps route i j = Inr True)"
proof (induction "is")
  case Nil
  then show ?case by simp
next
  case (Cons i "is")
  then have i: "1 \<le> i" by simp
  have "\<forall>j \<in> set [i + 1 ..< length route - 1]. i < j \<and> j + 1 < length route" by auto
  from scanJ_result [OF sq len r i this, of cp] Cons
  show ?case by (auto simp del: upt.simps)
qed

lemma twoOpt_stop:
  "scanI m ps cp route [1 ..< length route - 2] = Inr None \<Longrightarrow>
   twoOpt route m ps cp = Some (Inr route)"
  by (subst twoOpt.simps) simp

lemma twoOpt_step:
  "scanI m ps cp route [1 ..< length route - 2] = Inr (Some (i, j)) \<Longrightarrow>
   twoOpt route m ps cp = twoOpt (reverseSegment route i j) m ps cp"
  by (subst twoOpt.simps) simp

lemma twoOpt_invariant:
  assumes sq: "squareMatrix n m" and sym: "symmetricMatrix m" and len: "length ps = n"
    and step: "\<And>r i j. I r \<Longrightarrow> set r \<subseteq> {..<n} \<Longrightarrow> 1 \<le> i \<Longrightarrow> i < j \<Longrightarrow> j + 1 < length r \<Longrightarrow>
                 \<not> wouldBreakConstantPair r i j cp \<Longrightarrow>
                 scanI m ps cp r [1 ..< length r - 2] = Inr (Some (i, j)) \<Longrightarrow>
                 I (reverseSegment r i j)"
  shows "I route \<Longrightarrow> set route \<subseteq> {..<n} \<Longrightarrow>
         \<exists>r'. twoOpt route m ps cp = Some (Inr r') \<and> I r' \<and> mset r' = mset route \<and>
              pathCost m r' \<le> pathCost m route"
proof (induction "card {p. mset p = mset route \<and> pathCost m p < pathCost m route}"
        arbitrary: route rule: less_induct)
  case less
  note r = less.prems(2)
  from scanI_result [OF sq len r, of "[1 ..< length route - 2]" cp]
  consider "scanI m ps cp route [1 ..< length route - 2] = Inr None"
    | i j where "scanI m ps cp route [1 ..< length route - 2] = Inr (Some (i, j))"
        "1 \<le> i" "i < j" "j + 1 < length route"
        "\<not> wouldBreakConstantPair route i j cp" "acceptMove m ps route i j = Inr True"
    by auto
  then show ?case
  proof cases
    case 1
    then show ?thesis using less.prems(1) by (simp add: twoOpt_stop)
  next
    case (2 i j)
    define r2 where "r2 = reverseSegment route i j"
    have ms: "mset r2 = mset route" unfolding r2_def using 2(2-4) by (rule mset_reverseSegment)
    then have r2: "set r2 \<subseteq> {..<n}" using r by (metis set_mset_mset)
    have lenm: "length m = n" using sq by (simp add: squareMatrix_def)
    have symr: "m ! a ! b = m ! b ! a" if "a \<in> set route" "b \<in> set route" for a b
      using that r sym lenm unfolding symmetricMatrix_def by (auto simp: subset_iff)
    have lt: "m ! (route ! (i - 1)) ! (route ! j) + m ! (route ! i) ! (route ! (j + 1))
              < m ! (route ! (i - 1)) ! (route ! i) + m ! (route ! j) ! (route ! (j + 1))"
      using acceptMove_valid [OF sq len r 2(2-4)] 2(6) by auto
    have "pathCost m r2 =
         pathCost m route
           - (m ! (route ! (i - 1)) ! (route ! i) + m ! (route ! j) ! (route ! (j + 1)))
           + (m ! (route ! (i - 1)) ! (route ! j) + m ! (route ! i) ! (route ! (j + 1)))"
      unfolding r2_def using 2(2-4) symr by (rule pathCost_reverseSegment)
    with lt have cost: "pathCost m r2 < pathCost m route" by linarith
    have "{p. mset p = mset r2 \<and> pathCost m p < pathCost m r2}
            \<subset> {p. mset p = mset route \<and> pathCost m p < pathCost m route}"
      using ms cost by auto
    moreover have "finite {p. mset p = mset route \<and> pathCost m p < pathCost m route}"
      using mset_eq_finite [of route] by (rule rev_finite_subset) auto
    ultimately have "card {p. mset p = mset r2 \<and> pathCost m p < pathCost m r2}
            < card {p. mset p = mset route \<and> pathCost m p < pathCost m route}"
      by (rule psubset_card_mono [rotated])
    moreover have "I r2" unfolding r2_def using less.prems(1) r 2(2-5,1) by (rule step)
    ultimately obtain r' where "twoOpt r2 m ps cp = Some (Inr r')" "I r'" "mset r' = mset r2"
        "pathCost m r' \<le> pathCost m r2"
      using less.hyps [of r2] r2 by blast
    then show ?thesis
      using twoOpt_step [OF 2(1)] ms cost by (auto simp: r2_def)
  qed
qed

lemma accepted_move_decreases:
  assumes sq: "squareMatrix n m" and sym: "symmetricMatrix m" and len: "length ps = n"
    and r: "set route \<subseteq> {..<n}"
    and sc: "scanI m ps cp route [1 ..< length route - 2] = Inr (Some (i, j))"
  shows "1 \<le> i \<and> i < j \<and> j + 1 < length route \<and> \<not> wouldBreakConstantPair route i j cp \<and>
         pathCost m (reverseSegment route i j) < pathCost m route"
proof -
  from scanI_result [OF sq len r, of "[1 ..< length route - 2]" cp] sc
  have b: "1 \<le> i" "i < j" "j + 1 < length route"
    and nb: "\<not> wouldBreakConstantPair route i j cp"
    and acc: "acceptMove m ps route i j = Inr True"
    by auto
  have lenm: "length m = n" using sq by (simp add: squareMatrix_def)
  have symr: "m ! a ! b = m ! b ! a" if "a \<in> set route" "b \<in> set route" for a b
    using that r sym lenm unfolding symmetricMatrix_def by (auto simp: subset_iff)
  have lt: "m ! (route ! (i - 1)) ! (route ! j) + m ! (route ! i) ! (route ! (j + 1))
            < m ! (route ! (i - 1)) ! (route ! i) + m ! (route ! j) ! (route ! (j + 1))"
    using acceptMove_valid [OF sq len r b] acc by auto
  have "pathCost m (reverseSegment route i j) =
       pathCost m route
         - (m ! (route ! (i - 1)) ! (route ! i) + m ! (route ! j) ! (route ! (j + 1)))
         + (m ! (route ! (i - 1)) ! (route ! j) + m ! (route ! i) ! (route ! (j + 1)))"
    using b symr by (rule pathCost_reverseSegment)
  with lt have "pathCost m (reverseSegment route i j) < pathCost m route" by linarith
  with b nb show ?thesis by simp
qed


section \<open>Pair enforcement permutes the route\<close>

lemma indexOf_Some: "indexOf xs x = Some p \<Longrightarrow> p < length xs \<and> xs ! p = x"
  by (induction xs arbitrary: p) (auto split: if_splits)

lemma indexOf_None: "indexOf xs x = None \<longleftrightarrow> x \<notin> set xs"
  by (induction xs) auto

lemma mset_insertAt: "mset (insertAt xs k v) = add_mset v (mset xs)"
proof -
  have "mset (take k xs) + mset (drop k xs) = mset xs"
    by (metis append_take_drop_id mset_append)
  then show ?thesis by (simp add: insertAt_def)
qed

lemma mset_removeAt: "p < length xs \<Longrightarrow> add_mset (xs ! p) (mset (removeAt xs p)) = mset xs"
proof -
  assume "p < length xs"
  then have "xs = take p xs @ xs ! p # drop (Suc p) xs" by (rule id_take_nth_drop)
  then have "mset xs = mset (take p xs @ xs ! p # drop (Suc p) xs)" by simp
  then show ?thesis by (simp add: removeAt_def)
qed

lemma mset_move: "indexOf xs x = Some p \<Longrightarrow> mset (insertAt (removeAt xs p) k x) = mset xs"
  using mset_removeAt [of p xs] by (auto simp: mset_insertAt dest!: indexOf_Some)

lemma mset_enforceFrom: "mset (enforceFrom n cp r) = mset r"
proof (induction cp arbitrary: r)
  case Nil
  then show ?case by simp
next
  case (Cons pr cp)
  obtain idx1 idx2 where pr: "pr = (idx1, idx2)" by (cases pr)
  show ?case
    by (auto simp: pr Cons.IH Let_def mset_move split: option.splits)
qed

lemma mset_enforceConstantPairs: "mset (enforceConstantPairs r cp) = mset r"
  by (simp add: enforceConstantPairs_def mset_enforceFrom)

subsection \<open>Scores of valid routes are finite\<close>

lemma sharedThemes_defined:
  "a < length ps \<Longrightarrow> b < length ps \<Longrightarrow> \<exists>ts. sharedThemes (elemAt ps a) (elemAt ps b) = Inr ts"
  by (auto simp: sharedThemes_def elemAt_def)

lemma poorAt_defined:
  assumes "set route \<subseteq> {..<length ps}" "i < length route"
  shows "\<exists>p. poorAt route ps i = Inr p"
proof -
  have el: "route ! i < length ps" using assms by (auto simp: subset_iff)
  have "\<exists>ts. (if 0 < i then sharedThemes (elemAt ps (route ! i)) (elemAt ps (route ! (i - 1)))
              else Inr []) = Inr ts" (is "\<exists>ts. ?A = Inr ts")
    using assms el sharedThemes_defined [of "route ! i" ps "route ! (i - 1)"]
    by (auto simp: subset_iff)
  then obtain t1 where t1: "?A = Inr t1" ..
  have "\<exists>ts. (if i + 1 < length route
              then sharedThemes (elemAt ps (route ! i)) (elemAt ps (route ! (i + 1)))
              else Inr []) = Inr ts" (is "\<exists>ts. ?B = Inr ts")
    using assms el sharedThemes_defined [of "route ! i" ps "route ! (i + 1)"]
    by (auto simp: subset_iff)
  then obtain t2 where t2: "?B = Inr t2" ..
  show ?thesis
    unfolding poorAt_def andThen_def t1 t2 by simp
qed

lemma countPoorFrom_defined:
  assumes "set route \<subseteq> {..<length ps}"
  shows "\<forall>i \<in> set is. i < length route \<Longrightarrow> \<exists>c. countPoorFrom route ps is k = Inr c"
proof (induction "is" arbitrary: k)
  case Nil
  then show ?case by simp
next
  case (Cons i "is")
  obtain p where "poorAt route ps i = Inr p"
    using poorAt_defined [OF assms, of i] Cons.prems by auto
  then show ?case using Cons by simp
qed

lemma countPoorConnections_defined:
  "set route \<subseteq> {..<length ps} \<Longrightarrow> \<exists>c. countPoorConnections route ps = Inr c"
  unfolding countPoorConnections_def by (rule countPoorFrom_defined) auto

lemma totalCostFrom_defined:
  assumes sq: "squareMatrix n m" and r: "set route \<subseteq> {..<n}"
  shows "\<forall>i \<in> set is. i + 1 < length route \<Longrightarrow>
     \<exists>x. totalCostFrom route m is (Fin c) = Inr (Fin x)"
proof (induction "is" arbitrary: c)
  case Nil
  then show ?case by simp
next
  case (Cons i "is")
  have "route ! i < n" "route ! (i + 1) < n" using r Cons.prems by (auto simp: subset_iff)
  from distAt_square [OF sq this] show ?case using Cons by simp
qed

lemma calculateTotalCost_defined:
  assumes "squareMatrix n m" "set route \<subseteq> {..<n}"
  shows "\<exists>x. calculateTotalCost route m = Inr (Fin x)"
  unfolding calculateTotalCost_def by (rule totalCostFrom_defined [OF assms]) auto

lemma pathCost_sum:
  "pathCost m route = (\<Sum>i\<leftarrow>[0 ..< length route - 1]. m ! (route ! i) ! (route ! (i + 1)))"
proof (induction m route rule: pathCost.induct)
  case (3 m a b xs)
  have "[0 ..< length (a # b # xs) - 1] = 0 # map Suc [0 ..< length (b # xs) - 1]"
    by (simp add: upt_conv_Cons map_Suc_upt del: upt_Suc)
  then show ?case using 3 by (simp add: comp_def del: upt_Suc)
qed simp_all

text \<open>
  On a matrix of quarters the additions of \<open>calculateTotalCost\<close> are exact as long as the
  sum, counted in quarters, stays below \<open>2^53\<close>.
\<close>

lemma totalCostFrom_exact:
  assumes sq: "squareMatrix n m" and r: "set route \<subseteq> {..<n}" and qm: "quarterMatrix n m"
  shows "\<forall>i \<in> set is. i + 1 < length route \<Longrightarrow> 0 \<le> k \<Longrightarrow>
     k + 4 * int (length is) < 2 ^ 53 \<Longrightarrow>
     totalCostFrom route m is (Fin (of_int k / 4)) =
       Inr (Fin (of_int k / 4 + (\<Sum>i\<leftarrow>is. m ! (route ! i) ! (route ! (i + 1)))))"
proof (induction "is" arbitrary: k)
  case Nil
  then show ?case by simp
next
  case (Cons i "is")
  have el: "route ! i < n" "route ! (i + 1) < n" using r Cons.prems by (auto simp: subset_iff)
  obtain j where j: "0 \<le> j" "j \<le> 4" "m ! (route ! i) ! (route ! (i + 1)) = of_int j / 4"
    using qm el unfolding quarterMatrix_def by fastforce
  have kj: "0 \<le> k + j" "k + j < 2 ^ 53" using Cons.prems(2,3) j(1,2) by simp_all
  have e: "(of_int k / 4 + of_int j / 4 :: rat) = of_int (k + j) / 4" by simp
  have rd: "roundDouble (of_int k / 4 + of_int j / 4) = of_int (k + j) / 4"
    unfolding e using kj by (rule roundDouble_quarters)
  have d: "distAt m (route ! i) (route ! (i + 1)) = Inr (Fin (of_int j / 4))"
    using distAt_square [OF sq el] j(3) by simp
  have "totalCostFrom route m (i # is) (Fin (of_int k / 4)) =
        totalCostFrom route m is (Fin (of_int (k + j) / 4))"
    by (simp only: totalCostFrom.simps d sum.case numPlus.simps rd)
  also have "\<dots> = Inr (Fin (of_int (k + j) / 4 + (\<Sum>i\<leftarrow>is. m ! (route ! i) ! (route ! (i + 1)))))"
    using Cons.prems kj j(2) by (intro Cons.IH) simp_all
  finally have F: "totalCostFrom route m (i # is) (Fin (of_int k / 4)) =
      Inr (Fin (of_int (k + j) / 4 + (\<Sum>i\<leftarrow>is. m ! (route ! i) ! (route ! (i + 1)))))" .
  have e2: "of_int k / 4 + (\<Sum>i\<leftarrow>i # is. m ! (route ! i) ! (route ! (i + 1))) =
      of_int (k + j) / 4 + (\<Sum>i\<leftarrow>is. m ! (route ! i) ! (route ! (i + 1)))"
    unfolding list.map sum_list.Cons j(3) by (simp add: add_divide_distrib)
  show ?case unfolding e2 by (rule F)
qed

lemma calculateTotalCost_exact:
  assumes "squareMatrix n m" "set route \<subseteq> {..<n}" "quarterMatrix n m"
    and "length route < 2 ^ 51"
  shows "calculateTotalCost route m = Inr (Fin (pathCost m route))"
proof -
  have "4 * int (length route - 1) < 4 * 2 ^ 51" using assms(4) by simp
  then have b: "0 + 4 * int (length [0 ..< length route - 1]) < 2 ^ 53" by simp
  have "totalCostFrom route m [0 ..< length route - 1] (Fin (of_int 0 / 4)) =
       Inr (Fin (of_int 0 / 4 +
                 (\<Sum>i\<leftarrow>[0 ..< length route - 1]. m ! (route ! i) ! (route ! (i + 1)))))"
    using b by (intro totalCostFrom_exact [OF assms(1-3)]) auto
  then show ?thesis unfolding calculateTotalCost_def pathCost_sum by simp
qed

lemma scoreOf_defined:
  assumes "squareMatrix n m" "length ps = n" "set route \<subseteq> {..<n}"
  shows "\<exists>x. scoreOf mode route m ps = Inr (Fin x)"
  using calculateTotalCost_defined [OF assms(1,3)] countPoorConnections_defined [of route ps] assms(2,3)
  by (auto simp: scoreOf_def andThen_def)

lemma runAttempt_valid:
  assumes sq: "squareMatrix n m" and sym: "symmetricMatrix m" and len: "length ps = n"
    and cp: "\<forall>(a, b) \<in> set cp. b < n" and st: "startIdx < n"
  shows "\<exists>ord x. runAttempt ps m cp mode startIdx = Some (Inr (ord, Fin x)) \<and>
           distinct ord \<and> set ord = {..<n}"
proof -
  have lenm: "length m = n" using sq by (simp add: squareMatrix_def)
  obtain r0 where r0: "nearestNeighborWithCommonThemes m ps cp startIdx = Inr r0"
      "distinct r0" "set r0 = {..<n}"
    using nearestNeighbor_permutation [OF lenm len cp st] by blast
  have "\<exists>r'. twoOpt r0 m ps cp = Some (Inr r') \<and> True \<and> mset r' = mset r0 \<and>
              pathCost m r' \<le> pathCost m r0"
    using r0(3) by (intro twoOpt_invariant [OF sq sym len, where I = "\<lambda>_. True"]) auto
  then obtain r1 where r1: "twoOpt r0 m ps cp = Some (Inr r1)" "mset r1 = mset r0" by blast
  define r2 where "r2 = enforceConstantPairs r1 cp"
  have ms: "mset r2 = mset r0" using r1(2) by (simp add: r2_def mset_enforceConstantPairs)
  then have d: "distinct r2" and s: "set r2 = {..<n}"
    using r0(2,3) by (metis mset_eq_imp_distinct_iff, metis set_mset_mset)
  obtain x where x: "scoreOf mode r2 m ps = Inr (Fin x)"
    using scoreOf_defined [OF sq len, of r2 mode] s by auto
  have "runAttempt ps m cp mode startIdx = Some (Inr (r2, Fin x))"
    using r0(1) r1(1) x by (simp add: runAttempt_def r2_def Let_def)
  then show ?thesis using d s by blast
qed

section \<open>The pair check of the 2-opt loop\<close>

lemma wouldBreakFrom_True:
  "(a, b) \<in> set cp \<Longrightarrow> indexOf route a = Some p1 \<Longrightarrow> indexOf route b = Some p2 \<Longrightarrow>
   areNeighbors (int p1) (int p2) (int (length route)) \<Longrightarrow>
   (i \<le> p1 \<and> p1 \<le> j) \<noteq> (i \<le> p2 \<and> p2 \<le> j) \<Longrightarrow> wouldBreakFrom route i j cp"
proof (induction cp)
  case Nil
  then show ?case by simp
next
  case (Cons pr cp)
  obtain x y where pr: "pr = (x, y)" by (cases pr)
  show ?case
  proof (cases "(a, b) = (x, y)")
    case True
    then show ?thesis using Cons.prems(2-5) by (simp add: pr Let_def)
  next
    case False
    then have "wouldBreakFrom route i j cp" using Cons pr by auto
    then show ?thesis by (simp add: pr Let_def split: option.splits)
  qed
qed

lemma wouldBreakConstantPair_True:
  "(a, b) \<in> set cp \<Longrightarrow> indexOf route a = Some p1 \<Longrightarrow> indexOf route b = Some p2 \<Longrightarrow>
   areNeighbors (int p1) (int p2) (int (length route)) \<Longrightarrow>
   (i \<le> p1 \<and> p1 \<le> j) \<noteq> (i \<le> p2 \<and> p2 \<le> j) \<Longrightarrow> wouldBreakConstantPair route i j cp"
  using wouldBreakFrom_True [of a b cp route p1 p2 i j]
  by (auto simp: wouldBreakConstantPair_def)

lemma scanJ_Some:
  "scanJ m ps cp route i js = Inr (Some j) \<Longrightarrow>
   j \<in> set js \<and> \<not> wouldBreakConstantPair route i j cp"
  by (induction js) (auto split: if_splits sum.splits)

lemma scanI_Some:
  "scanI m ps cp route is = Inr (Some (i, j)) \<Longrightarrow>
   i \<in> set is \<and> \<not> wouldBreakConstantPair route i j cp"
proof (induction "is")
  case Nil
  then show ?case by simp
next
  case (Cons i' "is")
  then show ?case
    by (auto simp del: upt.simps split: sum.splits option.splits dest: scanJ_Some)
qed


lemma indexOf_distinct: "distinct xs \<Longrightarrow> p < length xs \<Longrightarrow> indexOf xs (xs ! p) = Some p"
proof (induction xs arbitrary: p)
  case Nil
  then show ?case by simp
next
  case (Cons x xs)
  show ?case
  proof (cases p)
    case 0
    then show ?thesis by simp
  next
    case (Suc q)
    then have "xs ! q \<in> set xs" using Cons.prems by simp
    then have "x \<noteq> xs ! q" using Cons.prems by auto
    then show ?thesis using Suc Cons by simp
  qed
qed

lemma nth_reverseSegment:
  assumes "1 \<le> i" "i < j" "j + 1 < length r" "q < length r"
  shows "reverseSegment r i j ! q = r ! (if i \<le> q \<and> q \<le> j then i + j - q else q)"
proof -
  define S where "S = take (j + 1 - i) (drop i r)"
  have lS: "length S = j + 1 - i" using assms by (simp add: S_def)
  have lT: "length (take i r) = i" using assms by simp
  consider "q < i" | "i \<le> q" "q \<le> j" | "j < q" by linarith
  then show ?thesis
  proof cases
    case 1
    then show ?thesis using assms lT by (simp add: reverseSegment_def nth_append)
  next
    case 2
    have "reverseSegment r i j ! q = (rev S @ drop (j + 1) r) ! (q - i)"
      using 2 lT by (simp add: reverseSegment_def nth_append S_def)
    also have "\<dots> = rev S ! (q - i)"
    proof -
      have "q - i < length (rev S)" using 2 lS by simp
      then show ?thesis by (simp only: nth_append if_True)
    qed
    also have "\<dots> = S ! (j - q)"
    proof -
      have "q - i < length S" using 2 lS by simp
      then have "rev S ! (q - i) = S ! (length S - Suc (q - i))" by (rule rev_nth)
      also have "length S - Suc (q - i) = j - q" using 2 lS by simp
      finally show ?thesis .
    qed
    also have "\<dots> = r ! (i + j - q)" using 2 assms by (simp add: S_def)
    finally show ?thesis using 2 by simp
  next
    case 3
    have "reverseSegment r i j ! q = (rev S @ drop (j + 1) r) ! (q - i)"
      using 3 assms lT by (simp add: reverseSegment_def nth_append S_def)
    also have "\<dots> = drop (j + 1) r ! (q - i - (j + 1 - i))"
    proof -
      have "\<not> q - i < length (rev S)" using 3 assms lS by simp
      then show ?thesis using lS by (simp only: nth_append if_False length_rev)
    qed
    also have "\<dots> = r ! q" using 3 assms by simp
    finally show ?thesis using 3 by simp
  qed
qed

lemma indexOf_reverseSegment:
  assumes "1 \<le> i" "i < j" "j + 1 < length r" "distinct r" "indexOf r x = Some p"
  shows "indexOf (reverseSegment r i j) x = Some (if i \<le> p \<and> p \<le> j then i + j - p else p)"
proof -
  define p' where "p' = (if i \<le> p \<and> p \<le> j then i + j - p else p)"
  have p: "p < length r" "r ! p = x" using indexOf_Some [OF assms(5)] by auto
  have ms: "mset (reverseSegment r i j) = mset r" using assms(1-3) by (rule mset_reverseSegment)
  then have len: "length (reverseSegment r i j) = length r" by (rule mset_eq_length)
  have d: "distinct (reverseSegment r i j)" using ms assms(4) by (metis mset_eq_imp_distinct_iff)
  have p'l: "p' < length r" using p(1) assms(1-3) by (auto simp: p'_def)
  have "(if i \<le> p' \<and> p' \<le> j then i + j - p' else p') = p"
    using assms(1-3) by (auto simp: p'_def)
  then have "reverseSegment r i j ! p' = x"
    using nth_reverseSegment [OF assms(1-3) p'l] p(2) by simp
  then show ?thesis
    using indexOf_distinct [OF d, of p'] p'l len by (simp add: p'_def)
qed

lemma areNeighbors_mirror:
  assumes "1 \<le> i" "i < j" "j + 1 < n" "p1 < n" "p2 < n"
    and "areNeighbors (int p1) (int p2) (int n)"
    and "(i \<le> p1 \<and> p1 \<le> j) = (i \<le> p2 \<and> p2 \<le> j)"
  shows "areNeighbors (int (if i \<le> p1 \<and> p1 \<le> j then i + j - p1 else p1))
           (int (if i \<le> p2 \<and> p2 \<le> j then i + j - p2 else p2)) (int n)"
proof (cases "i \<le> p1 \<and> p1 \<le> j")
  case True
  then have in2: "i \<le> p2 \<and> p2 \<le> j" using assms(7) by simp
  have "\<bar>int p1 - int p2\<bar> = 1" using assms(1-6) True in2 by (auto simp: areNeighbors_def)
  then have "\<bar>int (i + j - p1) - int (i + j - p2)\<bar> = 1" using True in2 by (simp add: of_nat_diff)
  then show ?thesis using True in2 by (simp add: areNeighbors_def)
next
  case False
  then have "\<not> (i \<le> p2 \<and> p2 \<le> j)" using assms(7) by simp
  with False show ?thesis using assms(6) by (simp only: if_False)
qed

lemma pairAdjacent_reverseSegment:
  assumes b: "1 \<le> i" "i < j" "j + 1 < length r" and d: "distinct r"
    and pr: "(a, b) \<in> set cp" and adj: "pairAdjacent r a b"
    and nb: "\<not> wouldBreakConstantPair r i j cp"
  shows "pairAdjacent (reverseSegment r i j) a b"
proof -
  from adj obtain p1 p2 where p: "indexOf r a = Some p1" "indexOf r b = Some p2"
      "areNeighbors (int p1) (int p2) (int (length r))"
    by (auto simp: pairAdjacent_def split: option.splits)
  have same: "(i \<le> p1 \<and> p1 \<le> j) = (i \<le> p2 \<and> p2 \<le> j)"
    using wouldBreakConstantPair_True [OF pr p, of i j] nb by blast
  have len: "length (reverseSegment r i j) = length r"
    using mset_reverseSegment [OF b] by (rule mset_eq_length)
  have pl: "p1 < length r" "p2 < length r"
    using indexOf_Some [OF p(1)] indexOf_Some [OF p(2)] by simp_all
  from areNeighbors_mirror [OF b pl p(3) same]
  show ?thesis
    unfolding pairAdjacent_def indexOf_reverseSegment [OF b d p(1)]
      indexOf_reverseSegment [OF b d p(2)] len
    by simp
qed

lemma distinct_reverseSegment:
  "1 \<le> i \<Longrightarrow> i < j \<Longrightarrow> j + 1 < length r \<Longrightarrow> distinct r \<Longrightarrow> distinct (reverseSegment r i j)"
  using mset_reverseSegment [of i j r] by (metis mset_eq_imp_distinct_iff)

section \<open>The loop over the attempts\<close>

lemma startIdx_bound:
  assumes "0 \<le> r" "r < 1" "0 < n"
  shows "nat \<lfloor>r * of_nat n\<rfloor> < n"
proof -
  have "r * of_nat n < of_nat n" using assms by simp
  then have "\<lfloor>r * of_nat n\<rfloor> < int n" by (simp add: floor_less_iff)
  then show ?thesis using assms(3) by linarith
qed

lemma Min_insert_absorb:
  "finite S \<Longrightarrow> (a::rat) \<le> b \<Longrightarrow> Min (insert a (insert b S)) = Min (insert a S)"
  by (cases "S = {}") (auto simp: min_def)

lemma attemptsLoop_Fin:
  assumes "\<forall>k \<in> set ks. runAttempt ps m cp mode (nat \<lfloor>rnd k * of_nat (length ps)\<rfloor>)
             = Some (Inr (ordOf k, Fin (f k)))"
  shows "\<exists>bo. attemptsLoop ps m cp mode rnd ks (bo0, Fin b0)
               = Some (Inr (bo, Fin (Min (insert b0 (f ` set ks))))) \<and>
             (bo = bo0 \<or> (\<exists>k \<in> set ks. bo = Some (ordOf k)))"
  using assms
proof (induction ks arbitrary: bo0 b0)
  case Nil
  then show ?case by simp
next
  case (Cons k ks)
  have run: "runAttempt ps m cp mode (nat \<lfloor>rnd k * of_nat (length ps)\<rfloor>)
             = Some (Inr (ordOf k, Fin (f k)))"
    using Cons.prems by simp
  have rest: "\<forall>k \<in> set ks. runAttempt ps m cp mode (nat \<lfloor>rnd k * of_nat (length ps)\<rfloor>)
             = Some (Inr (ordOf k, Fin (f k)))"
    using Cons.prems by simp
  show ?case
  proof (cases "f k < b0")
    case True
    have m: "Min (insert b0 (f ` set (k # ks))) = Min (insert (f k) (f ` set ks))"
      using Min_insert_absorb [of "f ` set ks" "f k" b0] True
      by (simp add: insert_commute)
    from Cons.IH [OF rest, of "Some (ordOf k)" "f k"] show ?thesis
      unfolding m using True run by (auto simp: Let_def)
  next
    case False
    have m: "Min (insert b0 (f ` set (k # ks))) = Min (insert b0 (f ` set ks))"
      using Min_insert_absorb [of "f ` set ks" b0 "f k"] False by simp
    from Cons.IH [OF rest, of bo0 b0] show ?thesis
      unfolding m using False run by (auto simp: Let_def)
  qed
qed

lemma attemptsLoop_Infinity:
  assumes "\<forall>k \<in> set ks. runAttempt ps m cp mode (nat \<lfloor>rnd k * of_nat (length ps)\<rfloor>)
             = Some (Inr (ordOf k, Fin (f k)))"
    and "ks \<noteq> []"
  shows "\<exists>k \<in> set ks. attemptsLoop ps m cp mode rnd ks (None, Infinity)
               = Some (Inr (Some (ordOf k), Fin (Min (f ` set ks))))"
proof -
  obtain k ks' where ks: "ks = k # ks'" using assms(2) by (cases ks) auto
  have run: "runAttempt ps m cp mode (nat \<lfloor>rnd k * of_nat (length ps)\<rfloor>)
             = Some (Inr (ordOf k, Fin (f k)))"
    using assms(1) ks by simp
  have rest: "\<forall>k \<in> set ks'. runAttempt ps m cp mode (nat \<lfloor>rnd k * of_nat (length ps)\<rfloor>)
             = Some (Inr (ordOf k, Fin (f k)))"
    using assms(1) ks by simp
  from attemptsLoop_Fin [OF rest, of "Some (ordOf k)" "f k"]
  show ?thesis unfolding ks using run by (auto simp: Let_def)
qed

lemma optimizeSeating_result:
  fixes distanceFunction :: DistanceFunction
  assumes "ps \<noteq> []" "0 < attempts" "\<forall>k. 0 \<le> rnd k \<and> rnd k < 1"
  defines "cp \<equiv> findConstantPairs ps"
  defines "dm \<equiv> createDistanceMatrix ps (getDistanceFunction distanceFunction) cp"
  shows "\<exists>ordOf f k. k < attempts \<and>
           (\<forall>a < attempts. runAttempt ps dm cp mode (nat \<lfloor>rnd a * of_nat (length ps)\<rfloor>)
                 = Some (Inr (ordOf a, Fin (f a))) \<and>
               distinct (ordOf a) \<and> set (ordOf a) = {..<length ps}) \<and>
           optimizeSeating ps attempts rnd distanceFunction mode =
             Some (Inr \<lparr>order = Some (enforceConstantPairs (ordOf k) cp),
                        score = Fin (Min (f ` {..<attempts})),
                        people = ps\<rparr>)"
proof -
  have wf: "squareMatrix (length ps) dm" "symmetricMatrix dm"
    unfolding dm_def using createDistanceMatrix_wellformed by blast+
  have cpb: "\<forall>(a, b) \<in> set cp. b < length ps"
    unfolding cp_def using findConstantPairs_bound by blast
  have "\<forall>a. \<exists>ord x. runAttempt ps dm cp mode (nat \<lfloor>rnd a * of_nat (length ps)\<rfloor>)
                 = Some (Inr (ord, Fin x)) \<and> distinct ord \<and> set ord = {..<length ps}"
  proof
    fix a
    have "nat \<lfloor>rnd a * of_nat (length ps)\<rfloor> < length ps"
      using assms(1,3) by (intro startIdx_bound) auto
    from runAttempt_valid [OF wf refl cpb this]
    show "\<exists>ord x. runAttempt ps dm cp mode (nat \<lfloor>rnd a * of_nat (length ps)\<rfloor>)
                 = Some (Inr (ord, Fin x)) \<and> distinct ord \<and> set ord = {..<length ps}" .
  qed
  then obtain ordOf f where run:
    "\<And>a. runAttempt ps dm cp mode (nat \<lfloor>rnd a * of_nat (length ps)\<rfloor>)
                 = Some (Inr (ordOf a, Fin (f a))) \<and>
          distinct (ordOf a) \<and> set (ordOf a) = {..<length ps}"
    by metis
  have "\<exists>k \<in> set [0 ..< attempts]. attemptsLoop ps dm cp mode rnd [0 ..< attempts] (None, Infinity)
               = Some (Inr (Some (ordOf k), Fin (Min (f ` set [0 ..< attempts]))))"
    using run assms(2) by (intro attemptsLoop_Infinity) auto
  then obtain k where k: "k < attempts"
      "attemptsLoop ps dm cp mode rnd [0 ..< attempts] (None, Infinity)
               = Some (Inr (Some (ordOf k), Fin (Min (f ` {..<attempts}))))"
    by (auto simp: atLeast0LessThan)
  have "optimizeSeating ps attempts rnd distanceFunction mode =
             Some (Inr \<lparr>order = Some (enforceConstantPairs (ordOf k) cp),
                        score = Fin (Min (f ` {..<attempts})),
                        people = ps\<rparr>)"
    unfolding optimizeSeating_def Let_def cp_def [symmetric] dm_def [symmetric] k(2) by simp
  with k(1) run show ?thesis by blast
qed

subsection \<open>An empty participant list\<close>

lemma findConstantPairs_Nil: "findConstantPairs [] = []"
  by (simp add: findConstantPairs_def CONSTANT_PAIRS_NAMES_def)

lemma createDistanceMatrix_Nil: "createDistanceMatrix [] f cp = []"
  by (simp add: createDistanceMatrix_def)

lemma runAttempt_empty:
  "runAttempt [] [] [] mode 0 = Some (Inr ([0], if mode = Distance then Fin 0 else Fin 1))"
  by (simp add: runAttempt_def nearestNeighborWithCommonThemes_def nnLoop.simps twoOpt.simps
      enforceConstantPairs_def scoreOf_def calculateTotalCost_def countPoorConnections_def
      poorAt_def andThen_def)

lemma attemptsLoop_empty_kept:
  "attemptsLoop [] [] [] mode rnd ks (Some [0], if mode = Distance then Fin 0 else Fin 1)
     = Some (Inr (Some [0], if mode = Distance then Fin 0 else Fin 1))"
  by (induction ks) (simp_all add: runAttempt_empty)

lemma attemptsLoop_empty_first:
  "ks \<noteq> [] \<Longrightarrow> attemptsLoop [] [] [] mode rnd ks (None, Infinity)
     = Some (Inr (Some [0], if mode = Distance then Fin 0 else Fin 1))"
  by (cases ks) (simp_all add: runAttempt_empty attemptsLoop_empty_kept)

lemma optimizeSeating_empty:
  "0 < attempts \<Longrightarrow>
   optimizeSeating [] attempts rnd distanceFunction optimizationMode =
     Some (Inr \<lparr>order = Some [0],
                score = (if optimizationMode = Distance then Fin 0 else Fin 1),
                people = []\<rparr>)"
  by (simp add: optimizeSeating_def findConstantPairs_Nil createDistanceMatrix_Nil
      attemptsLoop_empty_first enforceConstantPairs_def)


section \<open>The pair map is a matching\<close>

lemma map_set_fresh: "k \<notin> fst ` set m \<Longrightarrow> map_set m k v = m @ [(k, v)]"
  by (induction m k v rule: map_set.induct) auto

lemma findIndex_name: "findIndex ps nm = Some i \<Longrightarrow> i < length ps \<and> name (ps ! i) = nm"
  by (induction ps arbitrary: i) (auto split: if_splits)

lemma findIndex_differ:
  "findIndex ps x = Some i \<Longrightarrow> findIndex ps y = Some j \<Longrightarrow> x \<noteq> y \<Longrightarrow> i \<noteq> j"
  using findIndex_name by blast

lemma findConstantPairs_matching:
  "distinct (map fst (findConstantPairs ps)) \<and>
   (\<forall>(a, b) \<in> set (findConstantPairs ps). (b, a) \<in> set (findConstantPairs ps) \<and> a \<noteq> b)"
proof -
  define M where "M = ''Majbritt Jensen''"
  define B where "B = ''Boris Sidorevitj''"
  define R where "R = ''Ragnhild '' @ [CHR 0xC5] @ ''s Harbo''"
  define J where "J = ''Janne Rygh''"
  have names: "CONSTANT_PAIRS_NAMES = [(M, B), (R, J)]"
    by (simp add: CONSTANT_PAIRS_NAMES_def M_def B_def R_def J_def)
  have ne: "M \<noteq> B" "R \<noteq> J" "M \<noteq> R" "M \<noteq> J" "B \<noteq> R" "B \<noteq> J"
    by (simp_all add: M_def B_def R_def J_def)
  define acc1 where "acc1 =
    (case (findIndex ps M, findIndex ps B) of
       (Some i1, Some i2) \<Rightarrow> [(i1, i2), (i2, i1)] | _ \<Rightarrow> [])"
  have s1: "findConstantPairsFrom ps [(M, B), (R, J)] [] = findConstantPairsFrom ps [(R, J)] acc1"
  proof (cases "findIndex ps M")
    case None
    then show ?thesis by (simp add: acc1_def)
  next
    case i1: (Some i1)
    show ?thesis
    proof (cases "findIndex ps B")
      case None
      then show ?thesis using i1 by (simp add: acc1_def)
    next
      case i2: (Some i2)
      have "i1 \<noteq> i2" using findIndex_differ [OF i1 i2 ne(1)] .
      then show ?thesis using i1 i2 by (simp add: acc1_def)
    qed
  qed
  show ?thesis
  proof (cases "\<exists>i3 i4. findIndex ps R = Some i3 \<and> findIndex ps J = Some i4")
    case False
    then have e: "findConstantPairs ps = acc1"
      unfolding findConstantPairs_def names s1 by (auto split: option.splits)
    show ?thesis
      unfolding e acc1_def
      using findIndex_differ [OF _ _ ne(1)] by (auto split: option.splits)
  next
    case True
    then obtain i3 i4 where i3: "findIndex ps R = Some i3" and i4: "findIndex ps J = Some i4"
      by blast
    have d34: "i3 \<noteq> i4" using findIndex_differ [OF i3 i4 ne(2)] .
    show ?thesis
    proof (cases "\<exists>i1 i2. findIndex ps M = Some i1 \<and> findIndex ps B = Some i2")
      case False
      then have a: "acc1 = []" by (auto simp: acc1_def split: option.splits)
      have e: "findConstantPairs ps = [(i3, i4), (i4, i3)]"
        unfolding findConstantPairs_def names s1 a using i3 i4 d34 by simp
      show ?thesis unfolding e using d34 by auto
    next
      case True
      then obtain i1 i2 where i1: "findIndex ps M = Some i1" and i2: "findIndex ps B = Some i2"
        by blast
      have a: "acc1 = [(i1, i2), (i2, i1)]" using i1 i2 by (simp add: acc1_def)
      have d: "i1 \<noteq> i2" "i1 \<noteq> i3" "i1 \<noteq> i4" "i2 \<noteq> i3" "i2 \<noteq> i4"
        using findIndex_differ [OF i1 i2 ne(1)] findIndex_differ [OF i1 i3 ne(3)]
          findIndex_differ [OF i1 i4 ne(4)] findIndex_differ [OF i2 i3 ne(5)]
          findIndex_differ [OF i2 i4 ne(6)] by simp_all
      have e: "findConstantPairs ps = [(i1, i2), (i2, i1), (i3, i4), (i4, i3)]"
        unfolding findConstantPairs_def names s1 a using i3 i4 d34 d by simp
      show ?thesis unfolding e using d d34 by auto
    qed
  qed
qed

lemma matching_map_of:
  assumes "distinct (map fst cp)"
  shows "map_of cp a = Some b \<longleftrightarrow> (a, b) \<in> set cp"
  using assms by (rule map_of_eq_Some_iff)

section \<open>The constructor seats a partner next\<close>

lemma pickNext_partner:
  "map_of cp current = Some p \<Longrightarrow> p \<notin> visited \<Longrightarrow>
   pickNext dm ps cp n visited current = Inr (Some p)"
  by (simp add: pickNext_def)

lemma pairs_step:
  assumes d: "distinct (map fst cp)"
    and sym: "\<And>a b. (a, b) \<in> set cp \<Longrightarrow> (b, a) \<in> set cp \<and> a \<noteq> b"
    and I1: "\<And>a b. (a, b) \<in> set cp \<Longrightarrow> a \<in> set route \<Longrightarrow> b \<in> set route \<Longrightarrow>
               consecutiveIn route a b"
    and I2: "\<And>a b. (a, b) \<in> set cp \<Longrightarrow> a \<in> set route \<Longrightarrow> b \<notin> set route \<Longrightarrow> a = last route"
    and ne: "route \<noteq> []" and nx: "nxt \<notin> set route"
    and br: "\<And>p. map_of cp (last route) = Some p \<Longrightarrow> p \<notin> set route \<Longrightarrow> nxt = p"
  shows "(\<forall>a b. (a, b) \<in> set cp \<longrightarrow> a \<in> set (route @ [nxt]) \<longrightarrow> b \<in> set (route @ [nxt])
            \<longrightarrow> consecutiveIn (route @ [nxt]) a b) \<and>
         (\<forall>a b. (a, b) \<in> set cp \<longrightarrow> a \<in> set (route @ [nxt]) \<longrightarrow> b \<notin> set (route @ [nxt])
            \<longrightarrow> a = last (route @ [nxt]))"
proof (intro conjI allI impI)
  fix a b
  assume ab: "(a, b) \<in> set cp" and a: "a \<in> set (route @ [nxt])" and b: "b \<in> set (route @ [nxt])"
  have keep: "consecutiveIn (route @ [nxt]) x y" if "consecutiveIn route x y" for x y
  proof -
    from that obtain k where k: "k + 1 < length route"
      "route ! k = x \<and> route ! (k + 1) = y \<or> route ! k = y \<and> route ! (k + 1) = x"
      unfolding consecutiveIn_def by blast
    have "(route @ [nxt]) ! k = route ! k" "(route @ [nxt]) ! (k + 1) = route ! (k + 1)"
      using k(1) by (simp_all add: nth_append)
    then show ?thesis unfolding consecutiveIn_def using k by (intro exI [of _ k]) simp
  qed
  have atEnd: "consecutiveIn (route @ [nxt]) (last route) nxt"
  proof -
    have "(route @ [nxt]) ! (length route - 1) = last route"
      using ne by (simp add: nth_append last_conv_nth)
    moreover have "(route @ [nxt]) ! (length route - 1 + 1) = nxt" using ne by simp
    moreover have "length route - 1 + 1 < length (route @ [nxt])" using ne by simp
    ultimately show ?thesis unfolding consecutiveIn_def by blast
  qed
  have sw: "consecutiveIn r x y \<Longrightarrow> consecutiveIn r y x" for r x y
    unfolding consecutiveIn_def by blast
  consider "a \<in> set route" "b \<in> set route" | "a \<in> set route" "b = nxt" | "a = nxt" "b \<in> set route"
    | "a = nxt" "b = nxt"
    using a b by auto
  then show "consecutiveIn (route @ [nxt]) a b"
  proof cases
    case 1
    then show ?thesis using I1 [OF ab] keep by blast
  next
    case 2
    then have "a = last route" using I2 [OF ab] nx by blast
    then show ?thesis using atEnd 2 by simp
  next
    case 3
    have "(b, a) \<in> set cp" using sym [OF ab] by simp
    then have "b = last route" using I2 [of b a] 3 nx by blast
    then show ?thesis using sw [OF atEnd] 3 by simp
  next
    case 4
    then show ?thesis using sym [OF ab] by simp
  qed
next
  fix a b
  assume ab: "(a, b) \<in> set cp" and a: "a \<in> set (route @ [nxt])" and b: "b \<notin> set (route @ [nxt])"
  show "a = last (route @ [nxt])"
  proof (cases "a \<in> set route")
    case True
    have bn: "b \<notin> set route" "b \<noteq> nxt" using b by simp_all
    have "a = last route" using I2 [OF ab True bn(1)] .
    then have "map_of cp (last route) = Some b" using ab d by (simp add: map_of_eq_Some_iff)
    from br [OF this bn(1)] bn(2) show ?thesis by simp
  next
    case False
    then show ?thesis using a by simp
  qed
qed

lemma nnLoop_pairs:
  "length dm = n \<Longrightarrow> length ps = n \<Longrightarrow> \<forall>(a, b) \<in> set cp. b < n \<Longrightarrow>
   distinct (map fst cp) \<Longrightarrow> \<forall>(a, b) \<in> set cp. (b, a) \<in> set cp \<and> a \<noteq> b \<Longrightarrow>
   distinct route \<Longrightarrow> set route = visited \<Longrightarrow> visited \<subseteq> {..<n} \<Longrightarrow>
   route \<noteq> [] \<Longrightarrow> current = last route \<Longrightarrow>
   \<forall>a b. (a, b) \<in> set cp \<longrightarrow> a \<in> set route \<longrightarrow> b \<in> set route \<longrightarrow> consecutiveIn route a b \<Longrightarrow>
   \<forall>a b. (a, b) \<in> set cp \<longrightarrow> a \<in> set route \<longrightarrow> b \<notin> set route \<longrightarrow> a = last route \<Longrightarrow>
   nnLoop dm ps cp n route visited current = Inr r \<Longrightarrow>
   \<forall>a b. (a, b) \<in> set cp \<longrightarrow> a \<in> set r \<longrightarrow> b \<in> set r \<longrightarrow> consecutiveIn r a b"
proof (induction dm ps cp n route visited current rule: nnLoop.induct)
  case (1 dm ps cp n route visited current)
  note len = "1.prems"(1,2)
  show ?case
  proof (cases "length route < n")
    case False
    then have "r = route" using "1.prems"(13) by (subst (asm) nnLoop.simps) simp
    then show ?thesis using "1.prems"(11) by simp
  next
    case True
    have "card visited = length route"
      using distinct_card [OF "1.prems"(6)] "1.prems"(7) by simp
    then have "visited \<noteq> {..<n}" using True by auto
    then have un: "\<exists>j < n. j \<notin> visited" using "1.prems"(8) by auto
    have cur: "current < n" using "1.prems"(7-10) last_in_set [of route] by auto
    have prc: "\<And>b. map_of cp current = Some b \<Longrightarrow> b < n"
      using "1.prems"(3) by (auto dest: map_of_SomeD)
    obtain nxt where nxt: "pickNext dm ps cp n visited current = Inr (Some nxt)"
        "nxt < n" "nxt \<notin> visited"
      using pickNext_result [OF cur len prc un] by blast
    have br: "nxt = p" if "map_of cp (last route) = Some p" "p \<notin> set route" for p
      using pickNext_partner [of cp current p visited dm ps n] that nxt(1) "1.prems"(7,10) by simp
    have sym: "\<And>a b. (a, b) \<in> set cp \<Longrightarrow> (b, a) \<in> set cp \<and> a \<noteq> b"
      using "1.prems"(5) by blast
    have nx: "nxt \<notin> set route" using nxt(3) "1.prems"(7) by simp
    note st = pairs_step [OF "1.prems"(4) sym _ _ "1.prems"(9) nx br]
    have st': "(\<forall>a b. (a, b) \<in> set cp \<longrightarrow> a \<in> set (route @ [nxt]) \<longrightarrow> b \<in> set (route @ [nxt])
            \<longrightarrow> consecutiveIn (route @ [nxt]) a b) \<and>
         (\<forall>a b. (a, b) \<in> set cp \<longrightarrow> a \<in> set (route @ [nxt]) \<longrightarrow> b \<notin> set (route @ [nxt])
            \<longrightarrow> a = last (route @ [nxt]))"
      using "1.prems"(11,12) by (intro st) blast+
    have run: "nnLoop dm ps cp n (route @ [nxt]) (insert nxt visited) nxt = Inr r"
      using "1.prems"(13) True nxt(1) by (subst (asm) nnLoop.simps) simp
    show ?thesis
    proof (rule "1.IH" [OF True nxt(1) refl len "1.prems"(3,4,5) _ _ _ _ _ _ _ run])
      show "distinct (route @ [nxt])" using "1.prems"(6) nx by simp
      show "set (route @ [nxt]) = insert nxt visited" using "1.prems"(7) by auto
      show "insert nxt visited \<subseteq> {..<n}" using "1.prems"(8) nxt(2) by simp
      show "route @ [nxt] \<noteq> []" by simp
      show "nxt = last (route @ [nxt])" by simp
      show "\<forall>a b. (a, b) \<in> set cp \<longrightarrow> a \<in> set (route @ [nxt]) \<longrightarrow> b \<in> set (route @ [nxt])
            \<longrightarrow> consecutiveIn (route @ [nxt]) a b" using st' by blast
      show "\<forall>a b. (a, b) \<in> set cp \<longrightarrow> a \<in> set (route @ [nxt]) \<longrightarrow> b \<notin> set (route @ [nxt])
            \<longrightarrow> a = last (route @ [nxt])" using st' by blast
    qed
  qed
qed

lemma consecutiveIn_pairAdjacent:
  assumes "distinct r" "consecutiveIn r a b"
  shows "pairAdjacent r a b"
proof -
  from assms(2) obtain k where k: "k + 1 < length r"
    "r ! k = a \<and> r ! (k + 1) = b \<or> r ! k = b \<and> r ! (k + 1) = a"
    unfolding consecutiveIn_def by blast
  have i1: "indexOf r (r ! k) = Some k" using indexOf_distinct [OF assms(1), of k] k(1) by simp
  have i2: "indexOf r (r ! (k + 1)) = Some (k + 1)"
    using indexOf_distinct [OF assms(1), of "k + 1"] k(1) by simp
  have n: "areNeighbors (int k) (int (k + 1)) (int (length r))"
    "areNeighbors (int (k + 1)) (int k) (int (length r))"
    by (simp_all add: areNeighbors_def)
  from k(2) show ?thesis
  proof
    assume "r ! k = a \<and> r ! (k + 1) = b"
    then show ?thesis using i1 i2 n(1) by (auto simp: pairAdjacent_def)
  next
    assume "r ! k = b \<and> r ! (k + 1) = a"
    then show ?thesis using i1 i2 n(2) by (auto simp: pairAdjacent_def)
  qed
qed

lemma nearestNeighbor_pairs:
  assumes len: "length dm = length ps" and st: "startIdx < length ps"
    and r: "nearestNeighborWithCommonThemes dm ps (findConstantPairs ps) startIdx = Inr r"
    and ab: "(a, b) \<in> set (findConstantPairs ps)"
  shows "pairAdjacent r a b"
proof -
  define cp where "cp = findConstantPairs ps"
  define n where "n = length ps"
  have cpb: "\<forall>(a, b) \<in> set cp. b < n"
    unfolding cp_def n_def using findConstantPairs_bound by blast
  have m: "distinct (map fst cp)" "\<forall>(a, b) \<in> set cp. (b, a) \<in> set cp \<and> a \<noteq> b"
    unfolding cp_def using findConstantPairs_matching [of ps] by blast+
  obtain r' where r': "nearestNeighborWithCommonThemes dm ps cp startIdx = Inr r'"
      "distinct r'" "set r' = {..<n}"
    using nearestNeighbor_permutation [of dm n ps cp startIdx] len cpb st
    unfolding n_def by auto
  have rr: "r' = r" using r r'(1) unfolding cp_def by simp
  have run: "nnLoop dm ps cp n [startIdx] {startIdx} startIdx = Inr r"
    using r unfolding nearestNeighborWithCommonThemes_def cp_def n_def len by simp
  have "\<forall>a b. (a, b) \<in> set cp \<longrightarrow> a \<in> set r \<longrightarrow> b \<in> set r \<longrightarrow> consecutiveIn r a b"
  proof (rule nnLoop_pairs [OF _ _ cpb m _ _ _ _ _ _ _ run])
    show "length dm = n" "length ps = n" using len by (simp_all add: n_def)
    show "distinct [startIdx]" "set [startIdx] = {startIdx}" "[startIdx] \<noteq> []"
      "startIdx = last [startIdx]" by simp_all
    show "{startIdx} \<subseteq> {..<n}" using st by (simp add: n_def)
    show "\<forall>a b. (a, b) \<in> set cp \<longrightarrow> a \<in> set [startIdx] \<longrightarrow> b \<in> set [startIdx]
            \<longrightarrow> consecutiveIn [startIdx] a b"
      using m(2) by auto
    show "\<forall>a b. (a, b) \<in> set cp \<longrightarrow> a \<in> set [startIdx] \<longrightarrow> b \<notin> set [startIdx]
            \<longrightarrow> a = last [startIdx]" by simp
  qed
  moreover have "a \<in> set r" "b \<in> set r"
    using ab m(2) cpb r'(3) rr unfolding cp_def [symmetric] by auto
  ultimately have "consecutiveIn r a b" using ab unfolding cp_def by blast
  then show ?thesis using r'(2) rr by (intro consecutiveIn_pairAdjacent) simp_all
qed

section \<open>The routes of a refinement call\<close>

lemma twoOptVisits_snoc:
  "twoOptVisits m ps cp a b \<Longrightarrow> scanI m ps cp b [1 ..< length b - 2] = Inr (Some (i, j)) \<Longrightarrow>
   twoOptVisits m ps cp a (reverseSegment b i j)"
proof (induction rule: twoOptVisits.induct)
  case (first route)
  then show ?case by (intro twoOptVisits.pass [OF _ twoOptVisits.first])
next
  case (pass route i' j' r)
  then show ?case by (intro twoOptVisits.pass [OF pass.hyps(1)]) simp
qed

lemma twoOptVisits_invariant:
  assumes sq: "squareMatrix n m" and len: "length ps = n"
  shows "twoOptVisits m ps cp r0 r \<Longrightarrow> distinct r0 \<Longrightarrow> set r0 \<subseteq> {..<n} \<Longrightarrow>
         \<forall>(a, b) \<in> set cp. pairAdjacent r0 a b \<Longrightarrow>
         distinct r \<and> set r \<subseteq> {..<n} \<and> (\<forall>(a, b) \<in> set cp. pairAdjacent r a b)"
proof (induction rule: twoOptVisits.induct)
  case (first route)
  then show ?case by simp
next
  case (pass route i j r)
  note I = pass.prems
  from scanI_result [OF sq len I(2), of "[1 ..< length route - 2]" cp] pass.hyps(1)
  have b: "1 \<le> i" "i < j" "j + 1 < length route"
    and nb: "\<not> wouldBreakConstantPair route i j cp"
    by auto
  have "distinct (reverseSegment route i j)" using b I(1) by (rule distinct_reverseSegment)
  moreover have "set (reverseSegment route i j) \<subseteq> {..<n}"
    using mset_reverseSegment [OF b] I(2) by (metis set_mset_mset)
  moreover have "pairAdjacent (reverseSegment route i j) x y" if "(x, y) \<in> set cp" for x y
    using pairAdjacent_reverseSegment [OF b I(1) that _ nb] I(3) that by blast
  ultimately show ?case by (intro pass.IH) blast+
qed

lemma twoOpt_visits:
  assumes sq: "squareMatrix n m" and sym: "symmetricMatrix m" and len: "length ps = n"
    and s0: "set r0 \<subseteq> {..<n}"
  shows "\<exists>r1. twoOpt r0 m ps cp = Some (Inr r1) \<and> twoOptVisits m ps cp r0 r1"
proof -
  have "\<exists>r'. twoOpt r0 m ps cp = Some (Inr r') \<and> twoOptVisits m ps cp r0 r' \<and>
          mset r' = mset r0 \<and> pathCost m r' \<le> pathCost m r0"
    using s0 by (intro twoOpt_invariant [OF sq sym len, where I = "twoOptVisits m ps cp r0"])
      (auto intro: twoOptVisits.first twoOptVisits_snoc)
  then show ?thesis by blast
qed

lemma wouldBreakFrom_mirror:
  "(a, b) \<in> set cp \<Longrightarrow> indexOf route a = Some p1 \<Longrightarrow> indexOf route b = Some p2 \<Longrightarrow>
   areNeighbors (int p1) (int p2) (int (length route)) \<Longrightarrow>
   i \<le> p1 \<and> p1 \<le> j \<and> i \<le> p2 \<and> p2 \<le> j \<Longrightarrow>
   \<not> areNeighbors (int j - (int p1 - int i)) (int j - (int p2 - int i)) (int (length route)) \<Longrightarrow>
   wouldBreakFrom route i j cp"
proof (induction cp)
  case Nil
  then show ?case by simp
next
  case (Cons pr cp)
  obtain x y where pr: "pr = (x, y)" by (cases pr)
  show ?case
  proof (cases "(a, b) = (x, y)")
    case True
    then show ?thesis using Cons.prems(2-6) by (simp add: pr Let_def)
  next
    case False
    then have "wouldBreakFrom route i j cp" using Cons pr by auto
    then show ?thesis by (simp add: pr Let_def split: option.splits)
  qed
qed

lemma wouldBreakConstantPair_mirror:
  "(a, b) \<in> set cp \<Longrightarrow> indexOf route a = Some p1 \<Longrightarrow> indexOf route b = Some p2 \<Longrightarrow>
   areNeighbors (int p1) (int p2) (int (length route)) \<Longrightarrow>
   i \<le> p1 \<and> p1 \<le> j \<and> i \<le> p2 \<and> p2 \<le> j \<Longrightarrow>
   \<not> areNeighbors (int j - (int p1 - int i)) (int j - (int p2 - int i)) (int (length route)) \<Longrightarrow>
   wouldBreakConstantPair route i j cp"
  using wouldBreakFrom_mirror [of a b cp route p1 p2 i j]
  by (auto simp: wouldBreakConstantPair_def)

section \<open>Claims about the optimizer\<close>

text \<open>
  C1. For a non-empty participant list, at least one attempt and any random draws in
  [0, 1), \<open>optimizeSeating\<close> returns an order that holds every participant index below
  \<open>n\<close> exactly once. (The constructor builds such an order, \<open>nearestNeighbor_permutation\<close>;
  a segment reversal and the pair enforcement only permute it, \<open>mset_reverseSegment\<close> and
  \<open>mset_enforceConstantPairs\<close>.)
\<close>

theorem C1_order_is_permutation:
  assumes "ps \<noteq> []" "0 < attempts" "\<forall>k. 0 \<le> rnd k \<and> rnd k < 1"
  shows "\<exists>res ord. optimizeSeating ps attempts rnd distanceFunction optimizationMode = Some (Inr res) \<and>
           order res = Some ord \<and> distinct ord \<and> set ord = {..<length ps}"
proof -
  from optimizeSeating_result [OF assms, of distanceFunction optimizationMode]
  obtain ordOf f k where k: "k < attempts"
    and run: "\<forall>a < attempts. distinct (ordOf a) \<and> set (ordOf a) = {..<length ps}"
    and res: "optimizeSeating ps attempts rnd distanceFunction optimizationMode =
             Some (Inr \<lparr>order = Some (enforceConstantPairs (ordOf k) (findConstantPairs ps)),
                        score = Fin (Min (f ` {..<attempts})),
                        people = ps\<rparr>)"
    by blast
  have "mset (enforceConstantPairs (ordOf k) (findConstantPairs ps)) = mset (ordOf k)"
    by (rule mset_enforceConstantPairs)
  then have "distinct (enforceConstantPairs (ordOf k) (findConstantPairs ps))"
    "set (enforceConstantPairs (ordOf k) (findConstantPairs ps)) = {..<length ps}"
    using run k by (metis mset_eq_imp_distinct_iff, metis set_mset_mset)
  with res show ?thesis by simp
qed

theorem C1_order_is_permutation_witness:
  "fourPeople \<noteq> [] \<and> (0::nat) < 2 \<and> (\<forall>k. 0 \<le> constRnd (1 / 2) k \<and> constRnd (1 / 2) k < 1) \<and>
   (\<exists>res ord. optimizeSeating fourPeople 2 (constRnd (1 / 2)) Commonality PoorConnections = Some (Inr res) \<and>
           order res = Some ord \<and> distinct ord \<and> set ord = {..<length fourPeople})"
proof -
  have h: "fourPeople \<noteq> []" "(0::nat) < 2" "\<forall>k. 0 \<le> constRnd (1 / 2) k \<and> constRnd (1 / 2) k < 1"
    by (simp_all add: fourPeople_def constRnd_def)
  from C1_order_is_permutation [OF h, of Commonality PoorConnections] h show ?thesis by blast
qed


text \<open>
  C5, as the code has it. On the matrix built by \<open>createDistanceMatrix\<close> for either
  distance function and a route of participant indices, \<open>twoOpt\<close> returns a rearrangement
  of the route, and the sum of the distances of consecutive participants, taken as a sum
  of rational numbers (\<open>pathCost\<close>), is at most that of the route it was given; every single
  accepted reversal makes that sum strictly smaller. The value \<open>calculateTotalCost\<close>
  computes is that sum when its additions are exact, which is so in commonality mode (all
  distances are multiples of 1/4) on routes of fewer than \<open>2^51\<close> entries: there the computed
  cost never increases either.
\<close>

theorem C5_twoOpt_never_increases_exact_sum:
  assumes "set route \<subseteq> {..<length ps}"
  shows "\<exists>r'.
           twoOpt route
             (createDistanceMatrix ps (getDistanceFunction distanceFunction) constantPairs)
             ps constantPairs = Some (Inr r') \<and>
           mset r' = mset route \<and>
           pathCost (createDistanceMatrix ps (getDistanceFunction distanceFunction) constantPairs)
               r'
             \<le> pathCost
                 (createDistanceMatrix ps (getDistanceFunction distanceFunction) constantPairs)
                 route \<and>
           (\<forall>i j. scanI
                    (createDistanceMatrix ps (getDistanceFunction distanceFunction) constantPairs)
                    ps constantPairs route [1 ..< length route - 2] = Inr (Some (i, j))
              \<longrightarrow> pathCost
                      (createDistanceMatrix ps (getDistanceFunction distanceFunction)
                         constantPairs)
                      (reverseSegment route i j)
                    < pathCost
                        (createDistanceMatrix ps (getDistanceFunction distanceFunction)
                           constantPairs)
                        route) \<and>
           (distanceFunction = Commonality \<and> length route < 2 ^ 51
              \<longrightarrow> calculateTotalCost route
                      (createDistanceMatrix ps (getDistanceFunction distanceFunction)
                         constantPairs)
                    = Inr (Fin (pathCost
                                  (createDistanceMatrix ps (getDistanceFunction distanceFunction)
                                     constantPairs)
                                  route)) \<and>
                  calculateTotalCost r'
                      (createDistanceMatrix ps (getDistanceFunction distanceFunction)
                         constantPairs)
                    = Inr (Fin (pathCost
                                  (createDistanceMatrix ps (getDistanceFunction distanceFunction)
                                     constantPairs)
                                  r')))"
proof -
  define dm where
    "dm = createDistanceMatrix ps (getDistanceFunction distanceFunction) constantPairs"
  have wf: "squareMatrix (length ps) dm" "symmetricMatrix dm"
    unfolding dm_def using createDistanceMatrix_wellformed by blast+
  have "\<exists>r'. twoOpt route dm ps constantPairs = Some (Inr r') \<and> True \<and> mset r' = mset route \<and>
              pathCost dm r' \<le> pathCost dm route"
    using assms(1) by (intro twoOpt_invariant [OF wf refl, where I = "\<lambda>_. True"]) auto
  then obtain r' where r': "twoOpt route dm ps constantPairs = Some (Inr r')"
      "mset r' = mset route" "pathCost dm r' \<le> pathCost dm route" by blast
  have sr': "set r' \<subseteq> {..<length ps}" using r'(2) assms(1) by (metis set_mset_mset)
  have lr': "length r' = length route" using r'(2) by (rule mset_eq_length)
  have step: "pathCost dm (reverseSegment route i j) < pathCost dm route"
    if sc: "scanI dm ps constantPairs route [1 ..< length route - 2] = Inr (Some (i, j))" for i j
    using accepted_move_decreases [OF wf refl assms(1) sc] by simp
  have exact: "calculateTotalCost route dm = Inr (Fin (pathCost dm route)) \<and>
               calculateTotalCost r' dm = Inr (Fin (pathCost dm r'))"
    if "distanceFunction = Commonality" "length route < 2 ^ 51"
  proof -
    have qm: "quarterMatrix (length ps) dm"
      unfolding dm_def that(1) getDistanceFunction.simps by (rule createDistanceMatrix_quarter)
    show ?thesis
      using calculateTotalCost_exact [OF wf(1) assms(1) qm that(2)]
        calculateTotalCost_exact [OF wf(1) sr' qm] that(2) lr' by simp
  qed
  from r' step exact show ?thesis unfolding dm_def [symmetric] by blast
qed

theorem C5_twoOpt_never_increases_exact_sum_witness:
  "set crossedRoute \<subseteq> {..<length crossedPeople} \<and>
   scanI (createDistanceMatrix crossedPeople (getDistanceFunction Commonality) []) crossedPeople []
     crossedRoute [1 ..< length crossedRoute - 2] = Inr (Some (1, 2)) \<and>
   (\<exists>r'. twoOpt crossedRoute (createDistanceMatrix crossedPeople (getDistanceFunction Commonality) [])
            crossedPeople [] = Some (Inr r') \<and>
         pathCost (createDistanceMatrix crossedPeople (getDistanceFunction Commonality) [])
             (reverseSegment crossedRoute 1 2)
           < pathCost (createDistanceMatrix crossedPeople (getDistanceFunction Commonality) []) crossedRoute \<and>
         pathCost (createDistanceMatrix crossedPeople (getDistanceFunction Commonality) []) r'
           \<le> pathCost (createDistanceMatrix crossedPeople (getDistanceFunction Commonality) []) crossedRoute \<and>
         calculateTotalCost r' (createDistanceMatrix crossedPeople (getDistanceFunction Commonality) [])
           = Inr (Fin (pathCost (createDistanceMatrix crossedPeople (getDistanceFunction Commonality) []) r')))"
proof -
  have h: "set crossedRoute \<subseteq> {..<length crossedPeople}"
    by (simp add: crossedRoute_def crossedPeople_def)
  have sc: "scanI (createDistanceMatrix crossedPeople (getDistanceFunction Commonality) []) crossedPeople []
     crossedRoute [1 ..< length crossedRoute - 2] = Inr (Some (1, 2))"
    by code_simp
  have l: "length crossedRoute < 2 ^ 51" by (simp add: crossedRoute_def)
  from C5_twoOpt_never_increases_exact_sum [OF h, of Commonality "[]"] h sc l
  show ?thesis by blast
qed

lemma roundingMatrix:
  "createDistanceMatrix roundingPeople (getDistanceFunction AvgDistance)
     (findConstantPairs roundingPeople) =
   [[0, 5404319552844595 / 2 ^ 53, 1, 5404319552844595 / 2 ^ 53, 3602879701896397 / 2 ^ 53],
    [5404319552844595 / 2 ^ 53, 0, 1, 3602879701896397 / 2 ^ 52, 5404319552844595 / 2 ^ 53],
    [1, 1, 0, 1, 1],
    [5404319552844595 / 2 ^ 53, 3602879701896397 / 2 ^ 52, 1, 0, 5404319552844595 / 2 ^ 53],
    [3602879701896397 / 2 ^ 53, 5404319552844595 / 2 ^ 53, 1, 5404319552844595 / 2 ^ 53, 0]]"
  by code_simp

text \<open>
  C5, as the claim states it, fails for the cost that \<open>calculateTotalCost\<close> computes. In
  \<^verbatim>\<open>avg_distance\<close> mode the constructor builds the route \<open>[2, 0, 4, 1, 3]\<close> from the start index
  2; for the candidate \<open>(2, 3)\<close> the sum before is \<open>0.4 + 0.8\<close>, which rounds up to
  1.2000000000000002, and the sum after is \<open>0.6 + 0.6\<close>, which is the double 1.2, so \<open>twoOpt\<close>
  reverses the segment; the additions of \<open>calculateTotalCost\<close> then give 2.8 for the route
  before and 2.8000000000000003 for the route after.
\<close>

theorem C5_rounded_cost_increases_counterexample:
  "nearestNeighborWithCommonThemes
     (createDistanceMatrix roundingPeople (getDistanceFunction AvgDistance)
        (findConstantPairs roundingPeople))
     roundingPeople (findConstantPairs roundingPeople) 2 = Inr roundingRoute \<and>
   twoOpt roundingRoute
     (createDistanceMatrix roundingPeople (getDistanceFunction AvgDistance)
        (findConstantPairs roundingPeople))
     roundingPeople (findConstantPairs roundingPeople) = Some (Inr [2, 0, 1, 4, 3]) \<and>
   calculateTotalCost roundingRoute
     (createDistanceMatrix roundingPeople (getDistanceFunction AvgDistance)
        (findConstantPairs roundingPeople)) = Inr (Fin (6305039478318694 / 2 ^ 51)) \<and>
   calculateTotalCost [2, 0, 1, 4, 3]
     (createDistanceMatrix roundingPeople (getDistanceFunction AvgDistance)
        (findConstantPairs roundingPeople)) = Inr (Fin (6305039478318695 / 2 ^ 51)) \<and>
   (6305039478318694 / 2 ^ 51 :: rat) < 6305039478318695 / 2 ^ 51"
  unfolding roundingMatrix by code_simp

text \<open>
  C6. With at least one attempt, the score of the result of \<open>optimizeSeating\<close> is the
  minimum of the scores \<open>f a\<close> that the attempts \<open>a < attempts\<close> compute: no attempt has
  a score strictly below the returned one.
\<close>

theorem C6_score_is_minimum:
  assumes "0 < attempts" "\<forall>k. 0 \<le> rnd k \<and> rnd k < 1"
  shows "\<exists>res f. optimizeSeating ps attempts rnd distanceFunction optimizationMode = Some (Inr res) \<and>
           (\<forall>a < attempts. \<exists>ord. runAttempt ps
                (createDistanceMatrix ps (getDistanceFunction distanceFunction) (findConstantPairs ps))
                (findConstantPairs ps) optimizationMode (nat \<lfloor>rnd a * of_nat (length ps)\<rfloor>)
              = Some (Inr (ord, Fin (f a)))) \<and>
           score res = Fin (Min (f ` {..<attempts})) \<and>
           (\<forall>a < attempts. \<not> numLt (Fin (f a)) (score res))"
proof (cases "ps = []")
  case True
  define c :: rat where "c = (if optimizationMode = Distance then 0 else 1)"
  have run: "runAttempt ps
                (createDistanceMatrix ps (getDistanceFunction distanceFunction) (findConstantPairs ps))
                (findConstantPairs ps) optimizationMode (nat \<lfloor>rnd a * of_nat (length ps)\<rfloor>)
              = Some (Inr ([0], Fin c))" for a
    unfolding True by (simp add: findConstantPairs_Nil createDistanceMatrix_Nil runAttempt_empty c_def)
  have "{..<attempts} \<noteq> {}" using assms(1) by auto
  then have m: "Min ((\<lambda>_. c) ` {..<attempts}) = c" by (simp add: image_constant_conv)
  have "optimizeSeating ps attempts rnd distanceFunction optimizationMode =
     Some (Inr \<lparr>order = Some [0], score = Fin c, people = []\<rparr>)"
    unfolding True using optimizeSeating_empty [OF assms(1)] by (simp add: c_def)
  then show ?thesis
    using run m by (intro exI [of _ "\<lparr>order = Some [0], score = Fin c, people = []\<rparr>"]
        exI [of _ "\<lambda>_. c"]) simp
next
  case False
  from optimizeSeating_result [OF False assms, of distanceFunction optimizationMode]
  obtain ordOf f k where
    run: "\<forall>a < attempts. runAttempt ps
              (createDistanceMatrix ps (getDistanceFunction distanceFunction) (findConstantPairs ps))
              (findConstantPairs ps) optimizationMode (nat \<lfloor>rnd a * of_nat (length ps)\<rfloor>)
                 = Some (Inr (ordOf a, Fin (f a)))"
    and res: "optimizeSeating ps attempts rnd distanceFunction optimizationMode =
             Some (Inr \<lparr>order = Some (enforceConstantPairs (ordOf k) (findConstantPairs ps)),
                        score = Fin (Min (f ` {..<attempts})),
                        people = ps\<rparr>)"
    by blast
  have "Min (f ` {..<attempts}) \<le> f a" if "a < attempts" for a
    using that by (intro Min_le) auto
  then have "\<forall>a < attempts. \<not> f a < Min (f ` {..<attempts})" by (simp add: not_less)
  with run res show ?thesis
    by (intro exI [of _ "\<lparr>order = Some (enforceConstantPairs (ordOf k) (findConstantPairs ps)),
                        score = Fin (Min (f ` {..<attempts})), people = ps\<rparr>"]
        exI [of _ f]) simp
qed

theorem C6_score_is_minimum_witness:
  "(0::nat) < 3 \<and> (\<forall>k. 0 \<le> constRnd (1 / 2) k \<and> constRnd (1 / 2) k < 1) \<and>
   (\<exists>res f. optimizeSeating fourPeople 3 (constRnd (1 / 2)) Commonality Distance = Some (Inr res) \<and>
       score res = Fin (Min (f ` {..<3::nat})))"
proof -
  have h: "(0::nat) < 3" "\<forall>k. 0 \<le> constRnd (1 / 2) k \<and> constRnd (1 / 2) k < 1"
    by (simp_all add: constRnd_def)
  from C6_score_is_minimum [OF h, of fourPeople Commonality Distance] h show ?thesis by blast
qed

text \<open>
  C7. \<open>twoOpt\<close> is called on the route the constructor builds, with the matrix and the
  pair map of \<open>optimizeSeating\<close>, for the start index drawn from a number in [0, 1). The
  constructor seats the partner of a pinned participant right after it, so every pinned
  pair is adjacent in that route. Then in every route \<open>r\<close> that the loop holds at the start
  of a pass, up to the route it returns, every pinned pair is adjacent (the two members
  stand at neighbouring positions \<open>pos1\<close>, \<open>pos2\<close>), and every candidate \<open>(i, j)\<close> with exactly
  one of the two positions inside \<open>[i..j]\<close>, or with both inside and the mirrored positions
  \<open>j - (pos - i)\<close> not adjacent, is rejected: the pair check answers true for it and the
  pass does not reverse that segment.
\<close>

theorem C7_pinned_pairs_guarded:
  assumes "0 \<le> draw \<and> draw < 1"
  shows "\<exists>r0 r1.
     nearestNeighborWithCommonThemes
         (createDistanceMatrix ps (getDistanceFunction distanceFunction) (findConstantPairs ps))
         ps (findConstantPairs ps) (nat \<lfloor>draw * of_nat (length ps)\<rfloor>) = Inr r0 \<and>
     twoOpt r0
         (createDistanceMatrix ps (getDistanceFunction distanceFunction) (findConstantPairs ps))
         ps (findConstantPairs ps) = Some (Inr r1) \<and>
     twoOptVisits
         (createDistanceMatrix ps (getDistanceFunction distanceFunction) (findConstantPairs ps))
         ps (findConstantPairs ps) r0 r1 \<and>
     (\<forall>r idx1 idx2.
         twoOptVisits
           (createDistanceMatrix ps (getDistanceFunction distanceFunction) (findConstantPairs ps))
           ps (findConstantPairs ps) r0 r \<and>
         (idx1, idx2) \<in> set (findConstantPairs ps)
         \<longrightarrow> (\<exists>pos1 pos2.
                indexOf r idx1 = Some pos1 \<and> indexOf r idx2 = Some pos2 \<and>
                areNeighbors (int pos1) (int pos2) (int (length r)) \<and>
                (\<forall>i j. (i \<le> pos1 \<and> pos1 \<le> j) \<noteq> (i \<le> pos2 \<and> pos2 \<le> j) \<or>
                       (i \<le> pos1 \<and> pos1 \<le> j \<and> i \<le> pos2 \<and> pos2 \<le> j \<and>
                        \<not> areNeighbors (int j - (int pos1 - int i)) (int j - (int pos2 - int i))
                             (int (length r)))
                   \<longrightarrow> wouldBreakConstantPair r i j (findConstantPairs ps) \<and>
                       scanI (createDistanceMatrix ps (getDistanceFunction distanceFunction)
                                (findConstantPairs ps))
                         ps (findConstantPairs ps) r [1 ..< length r - 2] \<noteq> Inr (Some (i, j)))))"
proof (cases "ps = []")
  case True
  have nn: "nearestNeighborWithCommonThemes [] [] [] 0 = Inr [0]"
    by (simp add: nearestNeighborWithCommonThemes_def nnLoop.simps)
  have tw: "twoOpt [0] [] [] [] = Some (Inr [0])" by (simp add: twoOpt.simps)
  have z: "nat \<lfloor>draw * of_nat (length ([]::Person list))\<rfloor> = 0" by simp
  show ?thesis
    unfolding True findConstantPairs_Nil createDistanceMatrix_Nil z
  proof (intro exI [of _ "[0]"] conjI allI impI)
    show "nearestNeighborWithCommonThemes [] [] [] 0 = Inr [0]" by (rule nn)
    show "twoOpt [0] [] [] [] = Some (Inr [0])" by (rule tw)
    show "twoOptVisits [] [] [] [0] [0]" by (rule twoOptVisits.first)
  next
    fix r :: "nat list" and idx1 idx2 :: nat
    assume "twoOptVisits [] [] [] [0] r \<and> (idx1, idx2) \<in> set []"
    then have False by simp
    then show "\<exists>pos1 pos2.
                indexOf r idx1 = Some pos1 \<and> indexOf r idx2 = Some pos2 \<and>
                areNeighbors (int pos1) (int pos2) (int (length r)) \<and>
                (\<forall>i j. (i \<le> pos1 \<and> pos1 \<le> j) \<noteq> (i \<le> pos2 \<and> pos2 \<le> j) \<or>
                       (i \<le> pos1 \<and> pos1 \<le> j \<and> i \<le> pos2 \<and> pos2 \<le> j \<and>
                        \<not> areNeighbors (int j - (int pos1 - int i)) (int j - (int pos2 - int i))
                             (int (length r)))
                   \<longrightarrow> wouldBreakConstantPair r i j [] \<and>
                       scanI [] [] [] r [1 ..< length r - 2] \<noteq> Inr (Some (i, j)))" ..
  qed
next
  case False
  define cp where "cp = findConstantPairs ps"
  define dm where "dm = createDistanceMatrix ps (getDistanceFunction distanceFunction) cp"
  define startIdx where "startIdx = nat \<lfloor>draw * of_nat (length ps)\<rfloor>"
  have wf: "squareMatrix (length ps) dm" "symmetricMatrix dm"
    unfolding dm_def using createDistanceMatrix_wellformed by blast+
  have lenm: "length dm = length ps" using wf(1) by (simp add: squareMatrix_def)
  have cpb: "\<forall>(a, b) \<in> set cp. b < length ps"
    unfolding cp_def using findConstantPairs_bound by blast
  have st: "startIdx < length ps"
    unfolding startIdx_def using assms False by (intro startIdx_bound) auto
  obtain r0 where r0: "nearestNeighborWithCommonThemes dm ps cp startIdx = Inr r0"
      "distinct r0" "set r0 = {..<length ps}"
    using nearestNeighbor_permutation [OF lenm refl cpb st] by blast
  have a0: "\<forall>(a, b) \<in> set cp. pairAdjacent r0 a b"
    using nearestNeighbor_pairs [OF lenm st r0(1) [unfolded cp_def]] unfolding cp_def by blast
  have s0: "set r0 \<subseteq> {..<length ps}" using r0(3) by simp
  obtain r1 where r1: "twoOpt r0 dm ps cp = Some (Inr r1)" "twoOptVisits dm ps cp r0 r1"
    using twoOpt_visits [OF wf refl s0] by blast
  have guard: "\<exists>pos1 pos2.
                indexOf r idx1 = Some pos1 \<and> indexOf r idx2 = Some pos2 \<and>
                areNeighbors (int pos1) (int pos2) (int (length r)) \<and>
                (\<forall>i j. (i \<le> pos1 \<and> pos1 \<le> j) \<noteq> (i \<le> pos2 \<and> pos2 \<le> j) \<or>
                       (i \<le> pos1 \<and> pos1 \<le> j \<and> i \<le> pos2 \<and> pos2 \<le> j \<and>
                        \<not> areNeighbors (int j - (int pos1 - int i)) (int j - (int pos2 - int i))
                             (int (length r)))
                   \<longrightarrow> wouldBreakConstantPair r i j cp \<and>
                       scanI dm ps cp r [1 ..< length r - 2] \<noteq> Inr (Some (i, j)))"
    if v: "twoOptVisits dm ps cp r0 r" and pr: "(idx1, idx2) \<in> set cp" for r idx1 idx2
  proof -
    from twoOptVisits_invariant [OF wf(1) refl v r0(2) s0 a0] pr
    have "pairAdjacent r idx1 idx2" by blast
    then obtain pos1 pos2 where p: "indexOf r idx1 = Some pos1" "indexOf r idx2 = Some pos2"
        "areNeighbors (int pos1) (int pos2) (int (length r))"
      by (auto simp: pairAdjacent_def split: option.splits)
    have "wouldBreakConstantPair r i j cp \<and> scanI dm ps cp r [1 ..< length r - 2] \<noteq> Inr (Some (i, j))"
      if c: "(i \<le> pos1 \<and> pos1 \<le> j) \<noteq> (i \<le> pos2 \<and> pos2 \<le> j) \<or>
             (i \<le> pos1 \<and> pos1 \<le> j \<and> i \<le> pos2 \<and> pos2 \<le> j \<and>
              \<not> areNeighbors (int j - (int pos1 - int i)) (int j - (int pos2 - int i))
                   (int (length r)))" for i j
    proof -
      have wb: "wouldBreakConstantPair r i j cp"
        using c wouldBreakConstantPair_True [OF pr p, of i j]
          wouldBreakConstantPair_mirror [OF pr p, of i j] by blast
      then show ?thesis using scanI_Some [of dm ps cp r _ i j] by blast
    qed
    with p show ?thesis by blast
  qed
  show ?thesis
    unfolding cp_def [symmetric] dm_def [symmetric] startIdx_def [symmetric]
  proof (rule exI [of _ r0], rule exI [of _ r1], intro conjI allI impI)
    show "nearestNeighborWithCommonThemes dm ps cp startIdx = Inr r0" by (rule r0(1))
    show "twoOpt r0 dm ps cp = Some (Inr r1)" by (rule r1(1))
    show "twoOptVisits dm ps cp r0 r1" by (rule r1(2))
  next
    fix r idx1 idx2
    assume "twoOptVisits dm ps cp r0 r \<and> (idx1, idx2) \<in> set cp"
    then have "twoOptVisits dm ps cp r0 r" "(idx1, idx2) \<in> set cp" by simp_all
    then show "\<exists>pos1 pos2.
                indexOf r idx1 = Some pos1 \<and> indexOf r idx2 = Some pos2 \<and>
                areNeighbors (int pos1) (int pos2) (int (length r)) \<and>
                (\<forall>i j. (i \<le> pos1 \<and> pos1 \<le> j) \<noteq> (i \<le> pos2 \<and> pos2 \<le> j) \<or>
                       (i \<le> pos1 \<and> pos1 \<le> j \<and> i \<le> pos2 \<and> pos2 \<le> j \<and>
                        \<not> areNeighbors (int j - (int pos1 - int i)) (int j - (int pos2 - int i))
                             (int (length r)))
                   \<longrightarrow> wouldBreakConstantPair r i j cp \<and>
                       scanI dm ps cp r [1 ..< length r - 2] \<noteq> Inr (Some (i, j)))"
      by (rule guard)
  qed
qed

theorem C7_pinned_pairs_guarded_witness:
  "(0 \<le> (1 / 5 :: rat) \<and> (1 / 5 :: rat) < 1) \<and>
   nearestNeighborWithCommonThemes
     (createDistanceMatrix pinnedPeople (getDistanceFunction Commonality)
        (findConstantPairs pinnedPeople))
     pinnedPeople (findConstantPairs pinnedPeople)
     (nat \<lfloor>(1 / 5 :: rat) * of_nat (length pinnedPeople)\<rfloor>) = Inr pinnedBuiltRoute \<and>
   (0, 2) \<in> set (findConstantPairs pinnedPeople) \<and>
   indexOf pinnedBuiltRoute 0 = Some 2 \<and> indexOf pinnedBuiltRoute 2 = Some 3 \<and>
   wouldBreakConstantPair pinnedBuiltRoute 1 2 (findConstantPairs pinnedPeople) \<and>
   scanI (createDistanceMatrix pinnedPeople (getDistanceFunction Commonality)
            (findConstantPairs pinnedPeople))
     pinnedPeople (findConstantPairs pinnedPeople) pinnedBuiltRoute
     [1 ..< length pinnedBuiltRoute - 2] = Inr (Some (2, 3)) \<and>
   reverseSegment pinnedBuiltRoute 2 3 = pinnedRefinedRoute \<and>
   indexOf pinnedRefinedRoute 0 = Some 3 \<and> indexOf pinnedRefinedRoute 2 = Some 2 \<and>
   areNeighbors 3 2 (int (length pinnedRefinedRoute)) \<and>
   wouldBreakConstantPair pinnedRefinedRoute 1 2 (findConstantPairs pinnedPeople) \<and>
   (\<exists>r1. twoOpt pinnedBuiltRoute
            (createDistanceMatrix pinnedPeople (getDistanceFunction Commonality)
               (findConstantPairs pinnedPeople))
            pinnedPeople (findConstantPairs pinnedPeople) = Some (Inr r1) \<and>
         pairAdjacent r1 0 2)"
proof -
  define cp where "cp = findConstantPairs pinnedPeople"
  define dm where "dm = createDistanceMatrix pinnedPeople (getDistanceFunction Commonality) cp"
  have h: "0 \<le> (1 / 5 :: rat) \<and> (1 / 5 :: rat) < 1" by simp
  have nn: "nearestNeighborWithCommonThemes dm pinnedPeople cp
      (nat \<lfloor>(1 / 5 :: rat) * of_nat (length pinnedPeople)\<rfloor>) = Inr pinnedBuiltRoute"
    unfolding dm_def cp_def by code_simp
  have pr: "(0, 2) \<in> set cp" unfolding cp_def by code_simp
  have sc: "scanI dm pinnedPeople cp pinnedBuiltRoute [1 ..< length pinnedBuiltRoute - 2]
      = Inr (Some (2, 3))"
    unfolding dm_def cp_def by code_simp
  have rv: "reverseSegment pinnedBuiltRoute 2 3 = pinnedRefinedRoute" by code_simp
  have ix: "indexOf pinnedBuiltRoute 0 = Some 2" "indexOf pinnedBuiltRoute 2 = Some 3"
    "indexOf pinnedRefinedRoute 0 = Some 3" "indexOf pinnedRefinedRoute 2 = Some 2"
    by (simp_all add: pinnedBuiltRoute_def pinnedRefinedRoute_def)
  from C7_pinned_pairs_guarded [OF h, of pinnedPeople Commonality, folded cp_def,
      folded dm_def, unfolded nn]
  obtain r1 where r1: "twoOpt pinnedBuiltRoute dm pinnedPeople cp = Some (Inr r1)"
      "twoOptVisits dm pinnedPeople cp pinnedBuiltRoute r1"
    and g: "\<And>r idx1 idx2.
         twoOptVisits dm pinnedPeople cp pinnedBuiltRoute r \<Longrightarrow> (idx1, idx2) \<in> set cp \<Longrightarrow>
         \<exists>pos1 pos2.
            indexOf r idx1 = Some pos1 \<and> indexOf r idx2 = Some pos2 \<and>
            areNeighbors (int pos1) (int pos2) (int (length r)) \<and>
            (\<forall>i j. (i \<le> pos1 \<and> pos1 \<le> j) \<noteq> (i \<le> pos2 \<and> pos2 \<le> j) \<or>
                   (i \<le> pos1 \<and> pos1 \<le> j \<and> i \<le> pos2 \<and> pos2 \<le> j \<and>
                    \<not> areNeighbors (int j - (int pos1 - int i)) (int j - (int pos2 - int i))
                         (int (length r)))
               \<longrightarrow> wouldBreakConstantPair r i j cp \<and>
                   scanI dm pinnedPeople cp r [1 ..< length r - 2] \<noteq> Inr (Some (i, j)))"
    by auto
  have v0: "twoOptVisits dm pinnedPeople cp pinnedBuiltRoute pinnedBuiltRoute"
    by (rule twoOptVisits.first)
  have v1: "twoOptVisits dm pinnedPeople cp pinnedBuiltRoute pinnedRefinedRoute"
    using twoOptVisits.pass [OF sc twoOptVisits.first] unfolding rv .
  from g [OF v0 pr] ix(1,2)
  have "\<forall>i j. (i \<le> (2::nat) \<and> (2::nat) \<le> j) \<noteq> (i \<le> (3::nat) \<and> (3::nat) \<le> j)
           \<longrightarrow> wouldBreakConstantPair pinnedBuiltRoute i j cp"
    by auto
  then have wb0: "wouldBreakConstantPair pinnedBuiltRoute 1 2 cp" by auto
  from g [OF v1 pr] ix(3,4)
  have g1: "areNeighbors 3 2 (int (length pinnedRefinedRoute)) \<and>
        (\<forall>i j. (i \<le> (3::nat) \<and> (3::nat) \<le> j) \<noteq> (i \<le> (2::nat) \<and> (2::nat) \<le> j)
           \<longrightarrow> wouldBreakConstantPair pinnedRefinedRoute i j cp)"
    by auto
  then have wb1: "wouldBreakConstantPair pinnedRefinedRoute 1 2 cp" by auto
  from g [OF r1(2) pr] have "pairAdjacent r1 0 2"
    by (auto simp: pairAdjacent_def)
  with h nn pr ix wb0 sc rv g1 wb1 r1(1) show ?thesis unfolding dm_def cp_def by blast
qed

text \<open>
  C10. For a non-empty participant list and at least one attempt, the first attempt ends
  with a finite score, which is below the initial \<open>Infinity\<close>; \<open>optimizeSeating\<close> returns
  (it neither throws nor runs forever) a result whose order is not \<open>null\<close> and whose score
  is finite.
\<close>

theorem C10_first_attempt_sets_best:
  assumes "ps \<noteq> []" "0 < attempts" "\<forall>k. 0 \<le> rnd k \<and> rnd k < 1"
  shows "(\<exists>ord x. runAttempt ps
              (createDistanceMatrix ps (getDistanceFunction distanceFunction) (findConstantPairs ps))
              (findConstantPairs ps) optimizationMode (nat \<lfloor>rnd 0 * of_nat (length ps)\<rfloor>)
            = Some (Inr (ord, Fin x)) \<and> numLt (Fin x) Infinity) \<and>
         (\<exists>res ord x. optimizeSeating ps attempts rnd distanceFunction optimizationMode = Some (Inr res) \<and>
            order res = Some ord \<and> score res = Fin x)"
proof -
  from optimizeSeating_result [OF assms, of distanceFunction optimizationMode]
  obtain ordOf f k where
    run: "\<forall>a < attempts. runAttempt ps
              (createDistanceMatrix ps (getDistanceFunction distanceFunction) (findConstantPairs ps))
              (findConstantPairs ps) optimizationMode (nat \<lfloor>rnd a * of_nat (length ps)\<rfloor>)
                 = Some (Inr (ordOf a, Fin (f a)))"
    and res: "optimizeSeating ps attempts rnd distanceFunction optimizationMode =
             Some (Inr \<lparr>order = Some (enforceConstantPairs (ordOf k) (findConstantPairs ps)),
                        score = Fin (Min (f ` {..<attempts})),
                        people = ps\<rparr>)"
    by blast
  from run assms(2) have "runAttempt ps
              (createDistanceMatrix ps (getDistanceFunction distanceFunction) (findConstantPairs ps))
              (findConstantPairs ps) optimizationMode (nat \<lfloor>rnd 0 * of_nat (length ps)\<rfloor>)
                 = Some (Inr (ordOf 0, Fin (f 0)))" by blast
  with res show ?thesis by simp
qed

theorem C10_first_attempt_sets_best_witness:
  "fourPeople \<noteq> [] \<and> (0::nat) < 1 \<and> (\<forall>k. 0 \<le> constRnd 0 k \<and> constRnd 0 k < 1) \<and>
   (\<exists>res ord x. optimizeSeating fourPeople 1 (constRnd 0) AvgDistance Distance = Some (Inr res) \<and>
            order res = Some ord \<and> score res = Fin x)"
proof -
  have h: "fourPeople \<noteq> []" "(0::nat) < 1" "\<forall>k. 0 \<le> constRnd 0 k \<and> constRnd 0 k < 1"
    by (simp_all add: fourPeople_def constRnd_def)
  from C10_first_attempt_sets_best [OF h, of AvgDistance Distance] h show ?thesis by blast
qed

text \<open>
  C8, as the code has it. With an empty participant list and at least one attempt,
  \<open>optimizeSeating\<close> makes no check: every attempt draws the start index 0, builds the route
  \<open>[0]\<close> and scores it, and the call returns normally with the order \<open>[0]\<close> and the score 1
  (poor connections) or 0 (distance). It does not loop and raises nothing.
\<close>

theorem C8_empty_list_returns_result:
  "0 < attempts \<Longrightarrow>
   optimizeSeating [] attempts rnd distanceFunction optimizationMode =
     Some (Inr \<lparr>order = Some [0],
                score = (if optimizationMode = Distance then Fin 0 else Fin 1),
                people = []\<rparr>)"
  by (rule optimizeSeating_empty)

theorem C8_empty_list_returns_result_witness:
  "(0::nat) < 3 \<and>
   optimizeSeating [] 3 (constRnd (1 / 2)) AvgDistance Distance =
     Some (Inr \<lparr>order = Some [0], score = Fin 0, people = []\<rparr>)"
  using C8_empty_list_returns_result [of 3 "constRnd (1 / 2)" AvgDistance Distance] by simp

text \<open>
  C8, as the claim states it, fails: the call with an empty list and one attempt returns a
  result, it does not fail with an invalid-input condition.
\<close>

theorem C8_empty_list_counterexample:
  "optimizeSeating [] 1 (constRnd (1 / 2)) Commonality PoorConnections =
     Some (Inr \<lparr>order = Some [0], score = Fin 1, people = []\<rparr>)"
  by code_simp

section \<open>The snake placement on a table of odd size\<close>

text \<open>
  C4. A table of declared size 3 followed by a table of size 1, four participants in route
  order: the first table takes all four (two on the left side, two on the right side,
  stored reversed) and the second table stays empty. Both sides are filled up to
  \<open>ceil(3/2) = 2\<close> seats, so a table of odd size \<open>s\<close> takes \<open>s + 1\<close> participants.
\<close>

theorem C4_odd_table_takes_one_more:
  "map_sum id tables (assignToTables fourInOrder [3, 1]) =
     Inr [[Occupied (mkPerson ''A'' [''x'', ''y'']), Occupied (mkPerson ''B'' [''x'']),
           Occupied (mkPerson ''D'' []), Occupied (mkPerson ''C'' [''y''])],
          []]"
  by code_simp

section \<open>The statistics calculator\<close>

lemma seatStatistics_occupied:
  assumes "table ! seatIdx = Occupied person"
  shows "\<exists>st. seatStatistics table tableIdx seatIdx = Some st \<and>
        SeatingStatistics.name st = name person \<and>
        tableNumber st = tableIdx + 1 \<and> position st = seatIdx + 1 \<and>
        (\<forall>prev next. 0 < seatIdx \<and> seatIdx + 1 < length table \<and>
             table ! (seatIdx - 1) = Occupied prev \<and> table ! (seatIdx + 1) = Occupied next
           \<longrightarrow> combinedSimilarity st =
                 toFixed2 ((commonalityDistance (themes person) (themes prev) +
                            commonalityDistance (themes person) (themes next)) / 2)) \<and>
        (\<forall>next. seatIdx = 0 \<and> 1 < length table \<and> table ! 1 = Occupied next
           \<longrightarrow> combinedSimilarity st =
                 toFixed2 (commonalityDistance (themes person) (themes next))) \<and>
        (\<forall>prev. 0 < seatIdx \<and> seatIdx + 1 = length table \<and>
             table ! (seatIdx - 1) = Occupied prev
           \<longrightarrow> combinedSimilarity st =
                 toFixed2 (commonalityDistance (themes person) (themes prev)))"
  using assms
  by (auto simp: seatStatistics_def neighborInfo_def Let_def split: seat.splits prod.splits)

lemma calculateStatistics_mem:
  "t < length tbls \<Longrightarrow> s < length (tbls ! t) \<Longrightarrow> seatStatistics (tbls ! t) t s = Some st
   \<Longrightarrow> st \<in> set (calculateStatistics tbls)"
  by (force simp: calculateStatistics_def List.map_filter_def)

lemma assignToTables_statistics:
  "assignToTables sr tableSizes = Inr ta \<Longrightarrow> statistics ta = calculateStatistics (tables ta)"
  by (auto simp: assignToTables_def andThen_def Let_def split: sum.splits)

text \<open>
  C9. Whatever seating result is mapped onto tables (so whichever distance function the
  optimization used: the mapper takes none), every occupied seat \<open>s\<close> of table \<open>t\<close> has a
  record in the statistics with table number \<open>t + 1\<close> and position \<open>s + 1\<close>, whose combined
  similarity is computed with \<open>commonalityDistance\<close>: the average of the distances to the two
  neighbours for an inner seat, the distance to the only neighbour for the first and for
  the last seat of the table (printed with two decimals).
\<close>

theorem C9_statistics_commonality:
  assumes "assignToTables seatingResult tableSizes = Inr ta"
    and "t < length (tables ta)" and "s < length (tables ta ! t)"
    and "tables ta ! t ! s = Occupied person"
  shows "\<exists>st \<in> set (statistics ta).
        SeatingStatistics.name st = name person \<and>
        tableNumber st = t + 1 \<and> position st = s + 1 \<and>
        (\<forall>prev next. 0 < s \<and> s + 1 < length (tables ta ! t) \<and>
             tables ta ! t ! (s - 1) = Occupied prev \<and> tables ta ! t ! (s + 1) = Occupied next
           \<longrightarrow> combinedSimilarity st =
                 toFixed2 ((commonalityDistance (themes person) (themes prev) +
                            commonalityDistance (themes person) (themes next)) / 2)) \<and>
        (\<forall>next. s = 0 \<and> 1 < length (tables ta ! t) \<and> tables ta ! t ! 1 = Occupied next
           \<longrightarrow> combinedSimilarity st =
                 toFixed2 (commonalityDistance (themes person) (themes next))) \<and>
        (\<forall>prev. 0 < s \<and> s + 1 = length (tables ta ! t) \<and>
             tables ta ! t ! (s - 1) = Occupied prev
           \<longrightarrow> combinedSimilarity st =
                 toFixed2 (commonalityDistance (themes person) (themes prev)))"
proof -
  from seatStatistics_occupied [OF assms(4), of t]
  obtain st where st: "seatStatistics (tables ta ! t) t s = Some st"
    and props: "SeatingStatistics.name st = name person \<and>
        tableNumber st = t + 1 \<and> position st = s + 1 \<and>
        (\<forall>prev next. 0 < s \<and> s + 1 < length (tables ta ! t) \<and>
             tables ta ! t ! (s - 1) = Occupied prev \<and> tables ta ! t ! (s + 1) = Occupied next
           \<longrightarrow> combinedSimilarity st =
                 toFixed2 ((commonalityDistance (themes person) (themes prev) +
                            commonalityDistance (themes person) (themes next)) / 2)) \<and>
        (\<forall>next. s = 0 \<and> 1 < length (tables ta ! t) \<and> tables ta ! t ! 1 = Occupied next
           \<longrightarrow> combinedSimilarity st =
                 toFixed2 (commonalityDistance (themes person) (themes next))) \<and>
        (\<forall>prev. 0 < s \<and> s + 1 = length (tables ta ! t) \<and>
             tables ta ! t ! (s - 1) = Occupied prev
           \<longrightarrow> combinedSimilarity st =
                 toFixed2 (commonalityDistance (themes person) (themes prev)))"
    by blast
  have "st \<in> set (statistics ta)"
    using calculateStatistics_mem [OF assms(2,3) st] assignToTables_statistics [OF assms(1)]
    by simp
  with props show ?thesis by blast
qed

theorem C9_statistics_commonality_witness:
  "\<exists>ta st. assignToTables fourInOrder [4] = Inr ta \<and>
      tables ta ! 0 ! 1 = Occupied (mkPerson ''B'' [''x'']) \<and>
      st \<in> set (statistics ta) \<and> tableNumber st = 1 \<and> position st = 2 \<and>
      combinedSimilarity st =
        toFixed2 ((commonalityDistance [''x''] [''x'', ''y''] + commonalityDistance [''x''] []) / 2)"
proof -
  define tbls where "tbls =
    [[Occupied (mkPerson ''A'' [''x'', ''y'']), Occupied (mkPerson ''B'' [''x'']),
      Occupied (mkPerson ''D'' []), Occupied (mkPerson ''C'' [''y''])]]"
  define ta where "ta = \<lparr>tables = tbls, statistics = calculateStatistics tbls\<rparr>"
  have e: "assignToTables fourInOrder [4] = Inr ta"
    unfolding ta_def tbls_def by code_simp
  have t: "0 < length (tables ta)" and s: "1 < length (tables ta ! 0)"
    and o: "tables ta ! 0 ! 1 = Occupied (mkPerson ''B'' [''x''])"
    by (simp_all add: ta_def tbls_def)
  from C9_statistics_commonality [OF e t s o]
  obtain st where "st \<in> set (statistics ta)" "tableNumber st = 1" "position st = 2"
    "combinedSimilarity st =
       toFixed2 ((commonalityDistance [''x''] [''x'', ''y''] + commonalityDistance [''x''] []) / 2)"
    by (auto simp: ta_def tbls_def mkPerson_def)
  with e o show ?thesis by blast
qed

section \<open>Removing and inserting seats\<close>

lemma length_removeAt: "k < length xs \<Longrightarrow> length (removeAt xs k) = length xs - 1"
  by (simp add: removeAt_def)

lemma length_insertAt: "length (insertAt xs k v) = length xs + 1"
  by (simp add: insertAt_def)

lemma nth_removeAt:
  "q + 1 < length xs \<Longrightarrow> removeAt xs k ! q = (if q < k then xs ! q else xs ! (q + 1))"
  by (auto simp: removeAt_def nth_append min_def)

lemma nth_insertAt:
  "k \<le> length xs \<Longrightarrow> q \<le> length xs \<Longrightarrow>
   insertAt xs k v ! q = (if q < k then xs ! q else if q = k then v else xs ! (q - 1))"
  by (auto simp: insertAt_def nth_append min_def nth_Cons')

lemma adjacentIn_removeAt:
  assumes adj: "adjacentIn xs A B" and k: "k < length xs"
    and nk: "\<not> seatHasName (xs ! k) A" "\<not> seatHasName (xs ! k) B"
  shows "adjacentIn (removeAt xs k) A B"
proof -
  from adj obtain sa sb where s: "sa < length xs" "sb < length xs"
      "seatHasName (xs ! sa) A" "seatHasName (xs ! sb) B"
      "areNeighbors (int sa) (int sb) (int (length xs))"
    by (auto simp: adjacentIn_def)
  have ne: "sa \<noteq> k" "sb \<noteq> k" using s nk by auto
  define sa' where "sa' = (if sa < k then sa else sa - 1)"
  define sb' where "sb' = (if sb < k then sb else sb - 1)"
  have lt: "sa' + 1 < length xs" "sb' + 1 < length xs"
    using s(1,2) ne k by (auto simp: sa'_def sb'_def)
  have "(if sa' < k then xs ! sa' else xs ! (sa' + 1)) = xs ! sa"
    "(if sb' < k then xs ! sb' else xs ! (sb' + 1)) = xs ! sb"
    using ne by (auto simp: sa'_def sb'_def)
  then have "removeAt xs k ! sa' = xs ! sa" "removeAt xs k ! sb' = xs ! sb"
    using nth_removeAt [OF lt(1), of k] nth_removeAt [OF lt(2), of k] by simp_all
  moreover have "areNeighbors (int sa') (int sb') (int (length (removeAt xs k)))"
    using s(1,2,5) ne k unfolding areNeighbors_def sa'_def sb'_def length_removeAt [OF k]
    by (auto simp: of_nat_diff)
  moreover have "sa' < length (removeAt xs k)" "sb' < length (removeAt xs k)"
    using lt by (simp_all add: length_removeAt [OF k])
  ultimately show ?thesis
    unfolding adjacentIn_def using s(3,4) by metis
qed

lemma adjacentIn_insertAt:
  assumes adj: "adjacentIn xs A B" and c: "c < length xs"
    and nc: "\<not> seatHasName (xs ! c) A" "\<not> seatHasName (xs ! c) B"
  shows "adjacentIn (insertAt xs (c + 1) v) A B"
proof -
  from adj obtain sa sb where s: "sa < length xs" "sb < length xs"
      "seatHasName (xs ! sa) A" "seatHasName (xs ! sb) B"
      "areNeighbors (int sa) (int sb) (int (length xs))"
    by (auto simp: adjacentIn_def)
  have ne: "sa \<noteq> c" "sb \<noteq> c" using s nc by auto
  define sa' where "sa' = (if sa < c + 1 then sa else sa + 1)"
  define sb' where "sb' = (if sb < c + 1 then sb else sb + 1)"
  have le: "c + 1 \<le> length xs" "sa' \<le> length xs" "sb' \<le> length xs"
    using s(1,2) c by (auto simp: sa'_def sb'_def)
  have "(if sa' < c + 1 then xs ! sa' else if sa' = c + 1 then v else xs ! (sa' - 1)) = xs ! sa"
    "(if sb' < c + 1 then xs ! sb' else if sb' = c + 1 then v else xs ! (sb' - 1)) = xs ! sb"
    using ne by (auto simp: sa'_def sb'_def)
  then have "insertAt xs (c + 1) v ! sa' = xs ! sa" "insertAt xs (c + 1) v ! sb' = xs ! sb"
    using nth_insertAt [OF le(1,2), of v] nth_insertAt [OF le(1,3), of v] by simp_all
  moreover have "areNeighbors (int sa') (int sb') (int (length (insertAt xs (c + 1) v)))"
    using s(1,2,5) ne c unfolding areNeighbors_def sa'_def sb'_def length_insertAt by auto
  moreover have "sa' < length (insertAt xs (c + 1) v)" "sb' < length (insertAt xs (c + 1) v)"
    using le by (simp_all add: length_insertAt)
  ultimately show ?thesis
    unfolding adjacentIn_def using s(3,4) by metis
qed

lemma adjacentIn_update:
  assumes adj: "adjacentIn xs A B" and k: "k < length xs"
    and nk: "\<not> seatHasName (xs ! k) A" "\<not> seatHasName (xs ! k) B"
  shows "adjacentIn (xs[k := v]) A B"
proof -
  from adj obtain sa sb where s: "sa < length xs" "sb < length xs"
      "seatHasName (xs ! sa) A" "seatHasName (xs ! sb) B"
      "areNeighbors (int sa) (int sb) (int (length xs))"
    by (auto simp: adjacentIn_def)
  have ne: "sa \<noteq> k" "sb \<noteq> k" using s nk by auto
  then have "xs[k := v] ! sa = xs ! sa" "xs[k := v] ! sb = xs ! sb" by simp_all
  moreover have "sa < length (xs[k := v])" "sb < length (xs[k := v])"
    "areNeighbors (int sa) (int sb) (int (length (xs[k := v])))" using s by simp_all
  ultimately show ?thesis
    unfolding adjacentIn_def using s(3,4) by metis
qed

lemma adjacentIn_inserted:
  assumes c: "c < length xs" "seatHasName (xs ! c) C" "seatHasName v D"
  shows "adjacentIn (insertAt xs (c + 1) v) C D"
proof -
  have "insertAt xs (c + 1) v ! c = xs ! c" "insertAt xs (c + 1) v ! (c + 1) = v"
    using c(1) by (simp_all add: nth_insertAt)
  moreover have "areNeighbors (int c) (int (c + 1)) (int (length (insertAt xs (c + 1) v)))"
    by (simp add: areNeighbors_def)
  moreover have "c < length (insertAt xs (c + 1) v)" "c + 1 < length (insertAt xs (c + 1) v)"
    using c(1) by (simp_all add: length_insertAt)
  ultimately show ?thesis
    unfolding adjacentIn_def using c(2,3) by metis
qed

section \<open>The occupied seats of a table list\<close>

lemma nonNull_append [simp]: "nonNull (xs @ ys) = nonNull xs + nonNull ys"
  by (simp add: nonNull_def)

lemma nonNull_Cons: "nonNull (x # xs) = nonNull [x] + nonNull xs"
  by (simp add: nonNull_def)

lemma nonNull_Nil [simp]: "nonNull [] = {#}"
  by (simp add: nonNull_def)

lemma nonNull_single_Null [simp]: "nonNull [Null] = {#}"
  by (simp add: nonNull_def)

lemma nonNull_single_Occupied [simp]: "nonNull [Occupied p] = {#Occupied p#}"
  by (simp add: nonNull_def)

lemma nonNullSeats_Cons: "nonNullSeats (xs # tbls) = nonNull xs + nonNullSeats tbls"
  by (simp add: nonNullSeats_def nonNull_def)

lemma nonNullSeats_append: "nonNullSeats (as @ bs) = nonNullSeats as + nonNullSeats bs"
  by (simp add: nonNullSeats_def)

lemma nonNullSeats_replace:
  assumes "t < length tbls"
  shows "nonNullSeats (tbls[t := ys]) + nonNull (tbls ! t) = nonNullSeats tbls + nonNull ys"
proof -
  have a: "tbls[t := ys] = take t tbls @ ys # drop (Suc t) tbls"
    using assms by (rule upd_conv_take_nth_drop)
  have b: "tbls = take t tbls @ tbls ! t # drop (Suc t) tbls"
    using assms by (rule id_take_nth_drop)
  have "nonNullSeats tbls = nonNullSeats (take t tbls) + nonNull (tbls ! t)
            + nonNullSeats (drop (Suc t) tbls)"
    by (subst b) (simp add: nonNullSeats_append nonNullSeats_Cons)
  moreover have "nonNullSeats (tbls[t := ys]) = nonNullSeats (take t tbls) + nonNull ys
            + nonNullSeats (drop (Suc t) tbls)"
    by (subst a) (simp add: nonNullSeats_append nonNullSeats_Cons)
  ultimately show ?thesis by simp
qed

lemma nonNull_update:
  assumes "s < length xs"
  shows "nonNull (xs[s := v]) + nonNull [xs ! s] = nonNull xs + nonNull [v]"
proof -
  have a: "xs[s := v] = take s xs @ v # drop (Suc s) xs"
    using assms by (rule upd_conv_take_nth_drop)
  have b: "xs = take s xs @ xs ! s # drop (Suc s) xs"
    using assms by (rule id_take_nth_drop)
  have "nonNull xs = nonNull (take s xs) + nonNull [xs ! s] + nonNull (drop (Suc s) xs)"
    by (subst b) (simp add: nonNull_Cons [of _ "drop (Suc s) xs"])
  moreover have "nonNull (xs[s := v]) = nonNull (take s xs) + nonNull [v] + nonNull (drop (Suc s) xs)"
    by (subst a) (simp add: nonNull_Cons [of _ "drop (Suc s) xs"])
  ultimately show ?thesis by simp
qed

lemma nonNull_insertAt: "nonNull (insertAt xs k v) = nonNull xs + nonNull [v]"
proof -
  have "nonNull xs = nonNull (take k xs) + nonNull (drop k xs)"
    by (metis append_take_drop_id nonNull_append)
  then show ?thesis by (simp add: insertAt_def nonNull_Cons [of _ "drop k xs"])
qed

lemma nonNull_removeAt:
  assumes "p < length xs"
  shows "nonNull (removeAt xs p) + nonNull [xs ! p] = nonNull xs"
proof -
  have b: "xs = take p xs @ xs ! p # drop (Suc p) xs"
    using assms by (rule id_take_nth_drop)
  have "nonNull xs = nonNull (take p xs) + nonNull [xs ! p] + nonNull (drop (Suc p) xs)"
    by (subst b) (simp add: nonNull_Cons [of _ "drop (Suc p) xs"])
  then show ?thesis by (simp add: removeAt_def)
qed

lemma nonNullSeats_setSeat:
  assumes "t < length tbls" "s < length (tbls ! t)"
  shows "nonNullSeats (setSeat tbls t s v) + nonNull [tbls ! t ! s] = nonNullSeats tbls + nonNull [v]"
proof -
  have "nonNullSeats (setSeat tbls t s v) + nonNull (tbls ! t) + nonNull [tbls ! t ! s]
        = nonNullSeats tbls + nonNull ((tbls ! t)[s := v]) + nonNull [tbls ! t ! s]"
    unfolding setSeat_def using nonNullSeats_replace [OF assms(1)] by simp
  also have "\<dots> = nonNullSeats tbls + nonNull (tbls ! t) + nonNull [v]"
    using nonNull_update [OF assms(2), of v] by (simp add: add.assoc)
  finally show ?thesis by simp
qed

lemma nonNullSeats_insert:
  assumes "t < length tbls"
  shows "nonNullSeats (tbls[t := insertAt (tbls ! t) k v]) = nonNullSeats tbls + nonNull [v]"
  using nonNullSeats_replace [OF assms, of "insertAt (tbls ! t) k v"]
  by (simp add: nonNull_insertAt)

lemma nonNullSeats_removeFirstNull:
  "nonNullSeats (removeFirstNull tbls t) = nonNullSeats tbls"
proof (cases "indexOf (tbls ! t) Null")
  case None
  then show ?thesis by (simp add: removeFirstNull_def)
next
  case (Some k)
  then have k: "k < length (tbls ! t)" "tbls ! t ! k = Null"
    using indexOf_Some [of "tbls ! t" Null k] by simp_all
  show ?thesis
  proof (cases "t < length tbls")
    case True
    from nonNullSeats_replace [OF True, of "removeAt (tbls ! t) k"] nonNull_removeAt [OF k(1)]
    show ?thesis by (simp add: removeFirstNull_def Some k(2))
  next
    case False
    then have "tbls[t := removeAt (tbls ! t) k] = tbls" by (simp add: list_update_beyond)
    then show ?thesis by (simp add: removeFirstNull_def Some)
  qed
qed

lemma nonNull_popNulls: "nonNull (popNulls xs) = nonNull xs"
proof (induction xs rule: popNulls.induct)
  case (1 table)
  show ?case
  proof (cases "table \<noteq> [] \<and> last table = Null")
    case True
    then have "table = butlast table @ [Null]" by (metis append_butlast_last_id)
    then have "nonNull table = nonNull (butlast table)"
      by (metis add.right_neutral nonNull_append nonNull_single_Null)
    then show ?thesis using 1 True by (subst popNulls.simps) simp
  next
    case False
    then show ?thesis by (subst popNulls.simps) auto
  qed
qed

lemma nonNullSeats_Nil: "nonNullSeats [] = {#}"
  by (simp add: nonNullSeats_def)

lemma nonNullSeats_popNulls: "nonNullSeats (map popNulls tbls) = nonNullSeats tbls"
  by (induction tbls) (simp_all add: nonNullSeats_Cons nonNull_popNulls nonNullSeats_Nil)

section \<open>Adjacency on tables under seat changes\<close>

lemma seatHasName_Null [simp]: "\<not> seatHasName Null nm"
  by (simp add: seatHasName_def)

lemma tableAdjacent_replace:
  assumes "tableAdjacent tbls A B" "adjacentIn (tbls ! t) A B \<Longrightarrow> adjacentIn ys A B"
  shows "tableAdjacent (tbls[t := ys]) A B"
proof -
  from assms(1) obtain u where u: "u < length tbls" "adjacentIn (tbls ! u) A B"
    by (auto simp: tableAdjacent_def)
  show ?thesis
  proof (cases "u = t")
    case True
    then show ?thesis using u assms(2) by (auto simp: tableAdjacent_def)
  next
    case False
    then have "tbls[t := ys] ! u = tbls ! u" by simp
    then show ?thesis using u unfolding tableAdjacent_def by (metis length_list_update)
  qed
qed

lemma tableAdjacent_new:
  "t < length tbls \<Longrightarrow> adjacentIn ys C D \<Longrightarrow> tableAdjacent (tbls[t := ys]) C D"
  unfolding tableAdjacent_def by (metis length_list_update nth_list_update_eq)

lemma tableAdjacent_setSeat:
  assumes "tableAdjacent tbls A B" "s < length (tbls ! t)"
    "\<not> seatHasName (tbls ! t ! s) A" "\<not> seatHasName (tbls ! t ! s) B"
  shows "tableAdjacent (setSeat tbls t s v) A B"
  unfolding setSeat_def using assms
  by (intro tableAdjacent_replace adjacentIn_update)

lemma tableAdjacent_insert:
  assumes "tableAdjacent tbls A B" "c < length (tbls ! t)"
    "\<not> seatHasName (tbls ! t ! c) A" "\<not> seatHasName (tbls ! t ! c) B"
  shows "tableAdjacent (tbls[t := insertAt (tbls ! t) (c + 1) v]) A B"
  using assms by (intro tableAdjacent_replace adjacentIn_insertAt)

lemma tableAdjacent_removeFirstNull:
  assumes "tableAdjacent tbls A B"
  shows "tableAdjacent (removeFirstNull tbls t) A B"
proof (cases "indexOf (tbls ! t) Null")
  case None
  then show ?thesis using assms by (simp add: removeFirstNull_def)
next
  case (Some k)
  then have k: "k < length (tbls ! t)" "tbls ! t ! k = Null"
    using indexOf_Some [of "tbls ! t" Null k] by simp_all
  have "tableAdjacent (tbls[t := removeAt (tbls ! t) k]) A B"
    using assms k by (intro tableAdjacent_replace adjacentIn_removeAt) simp_all
  then show ?thesis by (simp add: removeFirstNull_def Some)
qed

lemma adjacentIn_popNulls: "adjacentIn xs A B \<Longrightarrow> adjacentIn (popNulls xs) A B"
proof (induction xs rule: popNulls.induct)
  case (1 table)
  show ?case
  proof (cases "table \<noteq> [] \<and> last table = Null")
    case True
    then have k: "length table - 1 < length table" "table ! (length table - 1) = Null"
      using last_conv_nth [of table] by auto
    have "butlast table = removeAt table (length table - 1)"
      using True by (simp add: removeAt_def butlast_conv_take)
    then have "adjacentIn (butlast table) A B"
      using adjacentIn_removeAt [OF "1.prems" k(1)] k(2) by simp
    then show ?thesis using 1 True by (subst popNulls.simps) simp
  next
    case False
    then show ?thesis using 1 by (subst popNulls.simps) auto
  qed
qed

lemma tableAdjacent_popNulls:
  "tableAdjacent tbls A B \<Longrightarrow> tableAdjacent (map popNulls tbls) A B"
  unfolding tableAdjacent_def using adjacentIn_popNulls by (metis length_map nth_map)

section \<open>Finding the seat of a participant\<close>

lemma fold_last_match:
  "fold (\<lambda>x acc. if P x then Some (g x) else acc) xs a =
     (if filter P xs = [] then a else Some (g (last (filter P xs))))"
  by (induction xs arbitrary: a) auto

lemma locate_eq:
  "locate tbls nm =
     (let Q = (\<lambda>t. filter (\<lambda>s. seatHasName (tbls ! t ! s) nm) [0 ..< length (tbls ! t)] \<noteq> []);
          ts = filter Q [0 ..< length tbls]
      in if ts = [] then None
         else Some (last ts,
                    last (filter (\<lambda>s. seatHasName (tbls ! last ts ! s) nm)
                            [0 ..< length (tbls ! last ts)])))"
proof -
  have inner: "(\<lambda>t found.
             fold (\<lambda>s found'. if seatHasName (tbls ! t ! s) nm then Some (t, s) else found')
               [0 ..< length (tbls ! t)] found)
        = (\<lambda>t found. if filter (\<lambda>s. seatHasName (tbls ! t ! s) nm) [0 ..< length (tbls ! t)] \<noteq> []
                      then Some (t, last (filter (\<lambda>s. seatHasName (tbls ! t ! s) nm)
                                            [0 ..< length (tbls ! t)]))
                      else found)"
    by (intro ext) (simp add: fold_last_match [where g = "Pair _"])
  show ?thesis
    unfolding locate_def inner
    by (simp add: fold_last_match
        [where P = "\<lambda>t. filter (\<lambda>s. seatHasName (tbls ! t ! s) nm) [0 ..< length (tbls ! t)] \<noteq> []"
           and g = "\<lambda>t. (t, last (filter (\<lambda>s. seatHasName (tbls ! t ! s) nm)
                                            [0 ..< length (tbls ! t)]))"] Let_def)
qed

lemma locate_Some:
  assumes "locate tbls nm = Some (t, s)"
  shows "t < length tbls \<and> s < length (tbls ! t) \<and> seatHasName (tbls ! t ! s) nm"
proof -
  define Q where "Q = (\<lambda>t. filter (\<lambda>s. seatHasName (tbls ! t ! s) nm) [0 ..< length (tbls ! t)] \<noteq> [])"
  define ts where "ts = filter Q [0 ..< length tbls]"
  from assms have ne: "ts \<noteq> []" and t: "t = last ts"
    and s: "s = last (filter (\<lambda>s. seatHasName (tbls ! t ! s) nm) [0 ..< length (tbls ! t)])"
    unfolding locate_eq Let_def Q_def [symmetric] ts_def [symmetric]
    by (auto split: if_splits)
  have "t \<in> set ts" using ne t by simp
  then have tl: "t < length tbls" and q: "Q t" by (auto simp: ts_def)
  from q have "s \<in> set (filter (\<lambda>s. seatHasName (tbls ! t ! s) nm) [0 ..< length (tbls ! t)])"
    unfolding s Q_def by (rule last_in_set)
  then show ?thesis using tl by auto
qed

lemma locate_exists:
  assumes "t < length tbls" "s < length (tbls ! t)" "seatHasName (tbls ! t ! s) nm"
  shows "\<exists>t' s'. locate tbls nm = Some (t', s')"
proof -
  have "s \<in> set (filter (\<lambda>s. seatHasName (tbls ! t ! s) nm) [0 ..< length (tbls ! t)])"
    using assms by simp
  then have "filter (\<lambda>s. seatHasName (tbls ! t ! s) nm) [0 ..< length (tbls ! t)] \<noteq> []"
    by (metis empty_iff empty_set)
  then have "t \<in> set (filter (\<lambda>t. filter (\<lambda>s. seatHasName (tbls ! t ! s) nm)
                      [0 ..< length (tbls ! t)] \<noteq> []) [0 ..< length tbls])"
    using assms(1) by simp
  then have "filter (\<lambda>t. filter (\<lambda>s. seatHasName (tbls ! t ! s) nm)
                      [0 ..< length (tbls ! t)] \<noteq> []) [0 ..< length tbls] \<noteq> []"
    by (metis empty_iff empty_set)
  then show ?thesis unfolding locate_eq Let_def by simp
qed

section \<open>The map from names to participants\<close>

lemma map_of_map_set: "map_of (map_set m k v) = (map_of m)(k \<mapsto> v)"
  by (induction m k v rule: map_set.induct) (auto simp: fun_eq_iff)

lemma nameToPerson_Some:
  "map_of (fold (\<lambda>p m. map_set m (name p) p) ps m0) nm = Some q \<Longrightarrow>
   (q \<in> set ps \<and> name q = nm) \<or> map_of m0 nm = Some q"
proof (induction ps arbitrary: m0)
  case Nil
  then show ?case by simp
next
  case (Cons p ps)
  from Cons.IH [of "map_set m0 (name p) p"] Cons.prems
  show ?case by (auto simp: map_of_map_set split: if_splits)
qed

lemma nameToPerson_defined:
  "(\<exists>p \<in> set ps. name p = nm) \<or> map_of m0 nm \<noteq> None \<Longrightarrow>
   map_of (fold (\<lambda>p m. map_set m (name p) p) ps m0) nm \<noteq> None"
proof (induction ps arbitrary: m0)
  case Nil
  then show ?case by simp
next
  case (Cons p ps)
  have "(\<exists>p \<in> set ps. name p = nm) \<or> map_of (map_set m0 (name p) p) nm \<noteq> None"
    using Cons.prems by (auto simp: map_of_map_set)
  from Cons.IH [OF this] show ?case by simp
qed

section \<open>Finding a free seat next to a member\<close>

lemma findAdjacentSeat_Some:
  assumes "findAdjacentSeat xs s1 = Some a" "s1 < length xs"
  shows "a < length xs \<and> xs ! a = Null \<and>
         (a = s1 \<or> areNeighbors (int s1) (int a) (int (length xs)))"
proof -
  define prevIdx where "prevIdx = (if 0 < s1 then s1 - 1 else length xs - 1)"
  define nextIdx where "nextIdx = (if s1 < length xs - 1 then s1 + 1 else 0)"
  have n: "length xs \<noteq> 0" using assms(2) by auto
  have pn: "areNeighbors (int s1) (int prevIdx) (int (length xs)) \<or> prevIdx = s1"
    using assms(2) by (auto simp: prevIdx_def areNeighbors_def of_nat_diff)
  have nn: "areNeighbors (int s1) (int nextIdx) (int (length xs)) \<or> nextIdx = s1"
    using assms(2) by (auto simp: nextIdx_def areNeighbors_def of_nat_diff)
  from assms(1) have "(elemAt xs prevIdx = Some Null \<and> a = prevIdx) \<or>
                     (elemAt xs nextIdx = Some Null \<and> a = nextIdx)"
    unfolding findAdjacentSeat_def Let_def prevIdx_def [symmetric] nextIdx_def [symmetric]
    using n by (auto split: if_splits)
  then show ?thesis using pn nn by (auto simp: elemAt_def split: if_splits)
qed

lemma length_setSeat [simp]: "length (setSeat tbls t s v) = length tbls"
  by (simp add: setSeat_def)

lemma nth_setSeat_same: "t < length tbls \<Longrightarrow> setSeat tbls t s v ! t = (tbls ! t)[s := v]"
  by (simp add: setSeat_def)

lemma nth_setSeat_other: "u \<noteq> t \<Longrightarrow> setSeat tbls t s v ! u = tbls ! u"
  by (simp add: setSeat_def)

lemma length_removeFirstNull [simp]: "length (removeFirstNull tbls t) = length tbls"
  by (simp add: removeFirstNull_def split: option.splits)

lemma nth_removeFirstNull_other: "u \<noteq> t \<Longrightarrow> removeFirstNull tbls t ! u = tbls ! u"
  by (simp add: removeFirstNull_def split: option.splits)

section \<open>The two repairs of a declared pair\<close>

lemma seatHasName_unique: "seatHasName st A \<Longrightarrow> seatHasName st B \<Longrightarrow> A = B"
  by (auto simp: seatHasName_def split: seat.splits)

lemma seatHasName_Occupied [simp]: "seatHasName (Occupied p) nm \<longleftrightarrow> name p = nm"
  by (simp add: seatHasName_def)

lemma seatHasName_nonNull: "seatHasName st nm \<Longrightarrow> nonNull [st] = {#st#}"
  by (auto simp: seatHasName_def nonNull_def split: seat.splits)

lemma moveToTable_props:
  assumes h1: "t1 < length tbls" "s1 < length (tbls ! t1)" "seatHasName (tbls ! t1 ! s1) C"
    and h2: "t2 < length tbls" "s2 < length (tbls ! t2)" "seatHasName (tbls ! t2 ! s2) D"
    and ne: "t1 \<noteq> t2" and hD: "name person2 = D"
  shows "\<exists>tbls' s'. moveToTable tbls t1 s1 t2 s2 person2 = (tbls', s') \<and>
           length tbls' = length tbls \<and>
           s1 < length (tbls' ! t1) \<and> s' < length (tbls' ! t1) \<and>
           seatHasName (tbls' ! t1 ! s1) C \<and> seatHasName (tbls' ! t1 ! s') D \<and>
           areNeighbors (int s1) (int s') (int (length (tbls' ! t1))) \<and>
           nonNullSeats tbls' + {#tbls ! t2 ! s2#} = nonNullSeats tbls + {#Occupied person2#} \<and>
           (\<forall>A B. A \<noteq> C \<and> A \<noteq> D \<and> B \<noteq> C \<and> B \<noteq> D \<and> tableAdjacent tbls A B
                 \<longrightarrow> tableAdjacent tbls' A B)"
proof -
  define tbls1 where "tbls1 = setSeat tbls t2 s2 Null"
  have t1eq: "tbls1 ! t1 = tbls ! t1" using ne by (simp add: tbls1_def nth_setSeat_other)
  have len1: "length tbls1 = length tbls" by (simp add: tbls1_def)
  have nn1: "nonNullSeats tbls1 + {#tbls ! t2 ! s2#} = nonNullSeats tbls"
    using nonNullSeats_setSeat [OF h2(1,2), of Null] seatHasName_nonNull [OF h2(3)]
    by (simp add: tbls1_def)
  have oth1: "tableAdjacent tbls1 A B" if "A \<noteq> D" "B \<noteq> D" "tableAdjacent tbls A B" for A B
    unfolding tbls1_def using that seatHasName_unique [OF h2(3)]
    by (intro tableAdjacent_setSeat h2(2)) auto
  show ?thesis
  proof (cases "findAdjacentSeat (tbls ! t1) s1")
    case (Some a)
    from findAdjacentSeat_Some [OF Some h1(2)]
    have a: "a < length (tbls ! t1)" "tbls ! t1 ! a = Null"
      and an: "a = s1 \<or> areNeighbors (int s1) (int a) (int (length (tbls ! t1)))" by auto
    have as1: "a \<noteq> s1" using a(2) h1(3) by auto
    define tbls' where "tbls' = setSeat tbls1 t1 a (Occupied person2)"
    have mv: "moveToTable tbls t1 s1 t2 s2 person2 = (tbls', a)"
      by (simp add: moveToTable_def Let_def tbls1_def [symmetric] t1eq Some tbls'_def)
    have row: "tbls' ! t1 = (tbls ! t1)[a := Occupied person2]"
      using h1(1) len1 by (simp add: tbls'_def nth_setSeat_same t1eq)
    have nn: "nonNullSeats tbls' = nonNullSeats tbls1 + {#Occupied person2#}"
      using nonNullSeats_setSeat [of t1 tbls1 a "Occupied person2"] h1(1) len1 a
      by (simp add: tbls'_def t1eq)
    have oth: "tableAdjacent tbls' A B" if "A \<noteq> D" "B \<noteq> D" "tableAdjacent tbls A B" for A B
      unfolding tbls'_def using oth1 [OF that] a
      by (intro tableAdjacent_setSeat) (simp_all add: t1eq)
    have "nonNullSeats tbls' + {#tbls ! t2 ! s2#} = nonNullSeats tbls + {#Occupied person2#}"
      using nn nn1 by (metis add.commute add.left_commute)
    moreover have "length tbls' = length tbls" using len1 by (simp add: tbls'_def)
    moreover have "s1 < length (tbls' ! t1)" "a < length (tbls' ! t1)"
      using h1(2) a(1) by (simp_all add: row)
    moreover have "seatHasName (tbls' ! t1 ! s1) C" "seatHasName (tbls' ! t1 ! a) D"
      using h1(3) as1 a(1) hD by (simp_all add: row)
    moreover have "areNeighbors (int s1) (int a) (int (length (tbls' ! t1)))"
      using an as1 by (simp add: row)
    moreover have "\<forall>A B. A \<noteq> C \<and> A \<noteq> D \<and> B \<noteq> C \<and> B \<noteq> D \<and> tableAdjacent tbls A B
                 \<longrightarrow> tableAdjacent tbls' A B"
      using oth by blast
    ultimately show ?thesis using mv by blast
  next
    case None
    define tbls2 where "tbls2 = tbls1[t1 := insertAt (tbls1 ! t1) (s1 + 1) (Occupied person2)]"
    define tbls' where "tbls' = removeFirstNull tbls2 t2"
    have mv: "moveToTable tbls t1 s1 t2 s2 person2 = (tbls', s1 + 1)"
      by (simp add: moveToTable_def Let_def tbls1_def [symmetric] t1eq None tbls2_def tbls'_def)
    have row: "tbls' ! t1 = insertAt (tbls ! t1) (s1 + 1) (Occupied person2)"
      using h1(1) len1 ne by (simp add: tbls'_def nth_removeFirstNull_other tbls2_def t1eq)
    have nn: "nonNullSeats tbls' = nonNullSeats tbls1 + {#Occupied person2#}"
      using nonNullSeats_insert [of t1 tbls1 "s1 + 1" "Occupied person2"] h1(1) len1
      by (simp add: tbls'_def tbls2_def nonNullSeats_removeFirstNull)
    have oth: "tableAdjacent tbls' A B"
      if "A \<noteq> C" "A \<noteq> D" "B \<noteq> C" "B \<noteq> D" "tableAdjacent tbls A B" for A B
    proof -
      have "tableAdjacent tbls2 A B"
        unfolding tbls2_def using oth1 [OF that(2,4,5)] h1(2) that(1,3) seatHasName_unique [OF h1(3)]
        by (intro tableAdjacent_insert) (auto simp: t1eq)
      then show ?thesis unfolding tbls'_def by (rule tableAdjacent_removeFirstNull)
    qed
    have el: "tbls' ! t1 ! s1 = tbls ! t1 ! s1" "tbls' ! t1 ! (s1 + 1) = Occupied person2"
      using h1(2) by (simp_all add: row nth_insertAt)
    have "nonNullSeats tbls' + {#tbls ! t2 ! s2#} = nonNullSeats tbls + {#Occupied person2#}"
      using nn nn1 by (metis add.commute add.left_commute)
    moreover have "length tbls' = length tbls" using len1 by (simp add: tbls'_def tbls2_def)
    moreover have "s1 < length (tbls' ! t1)" "s1 + 1 < length (tbls' ! t1)"
      using h1(2) by (simp_all add: row length_insertAt)
    moreover have "seatHasName (tbls' ! t1 ! s1) C" "seatHasName (tbls' ! t1 ! (s1 + 1)) D"
      using h1(3) hD unfolding el by simp_all
    moreover have "areNeighbors (int s1) (int (s1 + 1)) (int (length (tbls' ! t1)))"
      by (simp add: areNeighbors_def)
    moreover have "\<forall>A B. A \<noteq> C \<and> A \<noteq> D \<and> B \<noteq> C \<and> B \<noteq> D \<and> tableAdjacent tbls A B
                 \<longrightarrow> tableAdjacent tbls' A B"
      using oth by blast
    ultimately show ?thesis using mv by blast
  qed
qed

lemma moveNextTo_props:
  assumes h1: "t < length tbls" "s1 < length (tbls ! t)" "seatHasName (tbls ! t ! s1) C"
    and h2: "s2 < length (tbls ! t)" "seatHasName (tbls ! t ! s2) D"
    and ne: "C \<noteq> D" and hD: "name person2 = D"
  shows "length (moveNextTo tbls t s1 s2 person2) = length tbls \<and>
         tableAdjacent (moveNextTo tbls t s1 s2 person2) C D \<and>
         nonNullSeats (moveNextTo tbls t s1 s2 person2) + {#tbls ! t ! s2#}
           = nonNullSeats tbls + {#Occupied person2#} \<and>
         (\<forall>A B. A \<noteq> C \<and> A \<noteq> D \<and> B \<noteq> C \<and> B \<noteq> D \<and> tableAdjacent tbls A B
               \<longrightarrow> tableAdjacent (moveNextTo tbls t s1 s2 person2) A B)"
proof -
  define tbls1 where "tbls1 = setSeat tbls t s2 Null"
  define xs1 where "xs1 = (tbls ! t)[s2 := Null]"
  have s12: "s1 \<noteq> s2" using h1(3) h2(2) ne seatHasName_unique by blast
  have row1: "tbls1 ! t = xs1" using h1(1) by (simp add: tbls1_def xs1_def nth_setSeat_same)
  have len1: "length tbls1 = length tbls" by (simp add: tbls1_def)
  have lx: "length xs1 = length (tbls ! t)" by (simp add: xs1_def)
  have x1: "xs1 ! s1 = tbls ! t ! s1" using s12 by (simp add: xs1_def)
  have nn1: "nonNullSeats tbls1 + {#tbls ! t ! s2#} = nonNullSeats tbls"
    using nonNullSeats_setSeat [OF h1(1) h2(1), of Null] seatHasName_nonNull [OF h2(2)]
    by (simp add: tbls1_def)
  have oth1: "tableAdjacent tbls1 A B" if "A \<noteq> D" "B \<noteq> D" "tableAdjacent tbls A B" for A B
    unfolding tbls1_def using that seatHasName_unique [OF h2(2)]
    by (intro tableAdjacent_setSeat h2(1)) auto
  show ?thesis
  proof (cases "findAdjacentSeat xs1 s1")
    case (Some a)
    from findAdjacentSeat_Some [OF Some] h1(2) lx
    have a: "a < length xs1" "xs1 ! a = Null"
      and an: "a = s1 \<or> areNeighbors (int s1) (int a) (int (length xs1))" by auto
    have as1: "a \<noteq> s1" using a(2) h1(3) x1 by auto
    define tbls' where "tbls' = setSeat tbls1 t a (Occupied person2)"
    have mv: "moveNextTo tbls t s1 s2 person2 = tbls'"
      by (simp add: moveNextTo_def Let_def tbls1_def [symmetric] row1 Some tbls'_def)
    have row: "tbls' ! t = xs1[a := Occupied person2]"
      using h1(1) len1 by (simp add: tbls'_def nth_setSeat_same row1)
    have nn: "nonNullSeats tbls' = nonNullSeats tbls1 + {#Occupied person2#}"
      using nonNullSeats_setSeat [of t tbls1 a "Occupied person2"] h1(1) len1 a
      by (simp add: tbls'_def row1)
    have oth: "tableAdjacent tbls' A B" if "A \<noteq> D" "B \<noteq> D" "tableAdjacent tbls A B" for A B
      unfolding tbls'_def using oth1 [OF that] a
      by (intro tableAdjacent_setSeat) (simp_all add: row1)
    have "adjacentIn (tbls' ! t) C D"
      unfolding adjacentIn_def row
      using a(1) as1 an h1(2,3) lx x1 hD
      by (intro exI [of _ s1] conjI exI [of _ a]) simp_all
    then have adj: "tableAdjacent tbls' C D"
      unfolding tableAdjacent_def using h1(1) len1 by (auto simp: tbls'_def)
    have "nonNullSeats tbls' + {#tbls ! t ! s2#} = nonNullSeats tbls + {#Occupied person2#}"
      using nn nn1 by (metis add.commute add.left_commute)
    then show ?thesis unfolding mv using adj oth len1 by (simp add: tbls'_def)
  next
    case None
    define tbls2 where "tbls2 = tbls1[t := insertAt (tbls1 ! t) (s1 + 1) (Occupied person2)]"
    define tbls' where "tbls' = removeFirstNull tbls2 t"
    have mv: "moveNextTo tbls t s1 s2 person2 = tbls'"
      by (simp add: moveNextTo_def Let_def tbls1_def [symmetric] row1 None tbls2_def tbls'_def)
    have nn: "nonNullSeats tbls' = nonNullSeats tbls1 + {#Occupied person2#}"
      using nonNullSeats_insert [of t tbls1 "s1 + 1" "Occupied person2"] h1(1) len1
      by (simp add: tbls'_def tbls2_def nonNullSeats_removeFirstNull)
    have oth: "tableAdjacent tbls' A B"
      if "A \<noteq> C" "A \<noteq> D" "B \<noteq> C" "B \<noteq> D" "tableAdjacent tbls A B" for A B
    proof -
      have "tableAdjacent tbls2 A B"
        unfolding tbls2_def using oth1 [OF that(2,4,5)] h1(2) that(1,3) seatHasName_unique [OF h1(3)]
        by (intro tableAdjacent_insert) (auto simp: row1 lx x1)
      then show ?thesis unfolding tbls'_def by (rule tableAdjacent_removeFirstNull)
    qed
    have "adjacentIn (insertAt xs1 (s1 + 1) (Occupied person2)) C D"
      using h1(2,3) lx x1 hD by (intro adjacentIn_inserted) simp_all
    then have "tableAdjacent tbls2 C D"
      unfolding tbls2_def row1 using h1(1) len1 by (intro tableAdjacent_new) simp_all
    then have adj: "tableAdjacent tbls' C D"
      unfolding tbls'_def by (rule tableAdjacent_removeFirstNull)
    have "nonNullSeats tbls' + {#tbls ! t ! s2#} = nonNullSeats tbls + {#Occupied person2#}"
      using nn nn1 by (metis add.commute add.left_commute)
    then show ?thesis unfolding mv using adj oth len1 by (simp add: tbls'_def tbls2_def)
  qed
qed

section \<open>One step of the repair loop\<close>

lemma enforcePair_props:
  assumes ntpD: "map_of ntp D = Some person2" "name person2 = D"
    and ntpC: "map_of ntp C = Some person1"
    and ne: "C \<noteq> D"
    and lc: "locate tbls C = Some (t1, s1)" and ld: "locate tbls D = Some (t2, s2)"
    and seatD: "tbls ! t2 ! s2 = Occupied person2"
  shows "length (enforcePairOnTables ntp tbls (C, D)) = length tbls \<and>
         tableAdjacent (enforcePairOnTables ntp tbls (C, D)) C D \<and>
         nonNullSeats (enforcePairOnTables ntp tbls (C, D)) = nonNullSeats tbls \<and>
         (\<forall>A B. A \<noteq> C \<and> A \<noteq> D \<and> B \<noteq> C \<and> B \<noteq> D \<and> tableAdjacent tbls A B
               \<longrightarrow> tableAdjacent (enforcePairOnTables ntp tbls (C, D)) A B)"
proof -
  from locate_Some [OF lc]
  have h1: "t1 < length tbls" "s1 < length (tbls ! t1)" "seatHasName (tbls ! t1 ! s1) C" by auto
  from locate_Some [OF ld]
  have h2: "t2 < length tbls" "s2 < length (tbls ! t2)" "seatHasName (tbls ! t2 ! s2) D" by auto
  show ?thesis
  proof (cases "t1 = t2")
    case False
    from moveToTable_props [OF h1 h2 False ntpD(2)]
    obtain tbls' s' where mv: "moveToTable tbls t1 s1 t2 s2 person2 = (tbls', s')"
      and l: "length tbls' = length tbls"
      and p: "s1 < length (tbls' ! t1)" "s' < length (tbls' ! t1)"
        "seatHasName (tbls' ! t1 ! s1) C" "seatHasName (tbls' ! t1 ! s') D"
        "areNeighbors (int s1) (int s') (int (length (tbls' ! t1)))"
      and nn: "nonNullSeats tbls' + {#tbls ! t2 ! s2#} = nonNullSeats tbls + {#Occupied person2#}"
      and oth: "\<forall>A B. A \<noteq> C \<and> A \<noteq> D \<and> B \<noteq> C \<and> B \<noteq> D \<and> tableAdjacent tbls A B
                 \<longrightarrow> tableAdjacent tbls' A B"
      by blast
    have e: "enforcePairOnTables ntp tbls (C, D) = tbls'"
      using False p(5) by (simp add: enforcePairOnTables_def ntpD ntpC lc ld mv)
    have "adjacentIn (tbls' ! t1) C D" unfolding adjacentIn_def using p by blast
    then have "tableAdjacent tbls' C D" unfolding tableAdjacent_def using h1(1) l by auto
    moreover have "nonNullSeats tbls' = nonNullSeats tbls" using nn seatD by simp
    ultimately show ?thesis unfolding e using l oth by blast
  next
    case True
    note h2' = h2(2,3) [folded True]
    show ?thesis
    proof (cases "areNeighbors (int s1) (int s2) (int (length (tbls ! t1)))")
      case adj: True
      have e: "enforcePairOnTables ntp tbls (C, D) = tbls"
        using True adj by (simp add: enforcePairOnTables_def ntpD ntpC lc ld)
      have "adjacentIn (tbls ! t1) C D" unfolding adjacentIn_def using h1 h2' adj by blast
      then have "tableAdjacent tbls C D" unfolding tableAdjacent_def using h1(1) by auto
      then show ?thesis unfolding e by simp
    next
      case nadj: False
      have e: "enforcePairOnTables ntp tbls (C, D) = moveNextTo tbls t1 s1 s2 person2"
        using True nadj by (simp add: enforcePairOnTables_def ntpD ntpC lc ld)
      from moveNextTo_props [OF h1 h2' ne ntpD(2)] seatD True
      show ?thesis unfolding e by simp
    qed
  qed
qed

lemma seat_in_tables:
  "st \<in> set (concat tbls) \<longleftrightarrow> (\<exists>t < length tbls. \<exists>s < length (tbls ! t). tbls ! t ! s = st)"
  by (auto simp: in_set_conv_nth) (metis in_set_conv_nth)+

lemma Occupied_in_nonNullSeats:
  "Occupied p \<in># nonNullSeats tbls \<longleftrightarrow>
   (\<exists>t < length tbls. \<exists>s < length (tbls ! t). tbls ! t ! s = Occupied p)"
  using seat_in_tables [of "Occupied p" tbls] by (simp add: nonNullSeats_def)

text \<open>The invariant of the repair loop and one step of it.\<close>

lemma namedOnce_unique:
  assumes "namedOnce ps nm" "p \<in> set ps" "q \<in> set ps" "name p = nm" "name q = nm"
  shows "p = q"
proof -
  define xs where "xs = filter (\<lambda>p. name p = nm) ps"
  have m: "p \<in> set xs" "q \<in> set xs" using assms(2-5) by (simp_all add: xs_def)
  have "length xs \<le> 1" using assms(1) by (simp add: namedOnce_def xs_def)
  then obtain x where "xs = [x]" using m(1) by (cases xs) auto
  then show ?thesis using m by simp
qed

lemma enforcePair_step:
  assumes inv: "nonNullSeats tbls = mset (map Occupied ps)"
    and once: "namedOnce ps D"
    and ntp: "ntp = fold (\<lambda>p m. map_set m (name p) p) ps []"
    and ne: "C \<noteq> D"
  shows "nonNullSeats (enforcePairOnTables ntp tbls (C, D)) = mset (map Occupied ps) \<and>
         (C \<in> name ` set ps \<and> D \<in> name ` set ps
            \<longrightarrow> tableAdjacent (enforcePairOnTables ntp tbls (C, D)) C D) \<and>
         (\<forall>A B. A \<noteq> C \<and> A \<noteq> D \<and> B \<noteq> C \<and> B \<noteq> D \<and> tableAdjacent tbls A B
               \<longrightarrow> tableAdjacent (enforcePairOnTables ntp tbls (C, D)) A B)"
proof (cases "map_of ntp C")
  case None
  then have "C \<notin> name ` set ps"
    using nameToPerson_defined [of ps C "[]"] unfolding ntp by auto
  with None inv show ?thesis by (simp add: enforcePairOnTables_def)
next
  case c: (Some person1)
  show ?thesis
  proof (cases "map_of ntp D")
    case None
    then have "D \<notin> name ` set ps"
      using nameToPerson_defined [of ps D "[]"] unfolding ntp by auto
    with None c inv show ?thesis by (simp add: enforcePairOnTables_def)
  next
    case d: (Some person2)
    have p1: "person1 \<in> set ps" "name person1 = C"
      using nameToPerson_Some [of ps "[]" C person1] c unfolding ntp by auto
    have p2: "person2 \<in> set ps" "name person2 = D"
      using nameToPerson_Some [of ps "[]" D person2] d unfolding ntp by auto
    have "Occupied person1 \<in># nonNullSeats tbls" "Occupied person2 \<in># nonNullSeats tbls"
      using p1(1) p2(1) unfolding inv by auto
    then obtain ta sa tb sb where
      a: "ta < length tbls" "sa < length (tbls ! ta)" "tbls ! ta ! sa = Occupied person1" and
      b: "tb < length tbls" "sb < length (tbls ! tb)" "tbls ! tb ! sb = Occupied person2"
      unfolding Occupied_in_nonNullSeats by blast
    obtain t1 s1 where lc: "locate tbls C = Some (t1, s1)"
      using locate_exists [OF a(1,2), of C] a(3) p1(2) by auto
    obtain t2 s2 where ld: "locate tbls D = Some (t2, s2)"
      using locate_exists [OF b(1,2), of D] b(3) p2(2) by auto
    from locate_Some [OF ld]
    have h2: "t2 < length tbls" "s2 < length (tbls ! t2)" "seatHasName (tbls ! t2 ! s2) D" by auto
    then obtain q where q: "tbls ! t2 ! s2 = Occupied q" "name q = D"
      by (auto simp: seatHasName_def split: seat.splits)
    have "Occupied q \<in># nonNullSeats tbls"
      unfolding Occupied_in_nonNullSeats using h2(1,2) q(1) by blast
    then have "q \<in> set ps" unfolding inv by auto
    then have "q = person2"
      using p2 q(2) by (intro namedOnce_unique [OF once]) simp_all
    then have seatD: "tbls ! t2 ! s2 = Occupied person2" using q(1) by simp
    from enforcePair_props [OF d p2(2) c ne lc ld seatD] inv
    show ?thesis by simp
  qed
qed

section \<open>The snake placement seats every participant\<close>

lemma fillSide_result:
  "\<exists>idx'. fillSide ps (Some ord) k idx side =
            Inr (side @ map (\<lambda>x. seatOf (elemAt ps x)) (take k (drop idx ord)), idx') \<and>
          drop idx' ord = drop (idx + k) ord"
proof (induction k arbitrary: idx side)
  case 0
  then show ?case by simp
next
  case (Suc k)
  show ?case
  proof (cases "idx < length ord")
    case True
    then have d: "drop idx ord = ord ! idx # drop (Suc idx) ord"
      by (simp add: Cons_nth_drop_Suc)
    from Suc.IH [of "idx + 1" "side @ [seatOf (elemAt ps (ord ! idx))]"] True
    show ?thesis by (simp add: d)
  next
    case False
    then show ?thesis by simp
  qed
qed

lemma fillTables_result:
  "\<exists>tbls. fillTables ps (Some ord) sizes idx = Inr tbls \<and> length tbls = length sizes \<and>
          mset (concat tbls) =
            mset (map (\<lambda>x. seatOf (elemAt ps x)) (take (seatsFilled sizes) (drop idx ord)))"
proof (induction sizes arbitrary: idx)
  case Nil
  then show ?case by (simp add: seatsFilled_def)
next
  case (Cons s sizes)
  define c where "c = (s + 1) div 2"
  define f where "f = (\<lambda>x. seatOf (elemAt ps x))"
  obtain idx1 where l: "fillSide ps (Some ord) c idx [] = Inr (map f (take c (drop idx ord)), idx1)"
      and d1: "drop idx1 ord = drop (idx + c) ord"
    using fillSide_result [of ps ord c idx "[]"] by (auto simp: f_def)
  obtain idx2 where r: "fillSide ps (Some ord) c idx1 [] = Inr (map f (take c (drop idx1 ord)), idx2)"
      and d2: "drop idx2 ord = drop (idx1 + c) ord"
    using fillSide_result [of ps ord c idx1 "[]"] by (auto simp: f_def)
  obtain rest where rest: "fillTables ps (Some ord) sizes idx2 = Inr rest"
      "length rest = length sizes"
      "mset (concat rest) = mset (map f (take (seatsFilled sizes) (drop idx2 ord)))"
    using Cons.IH [of idx2] by (auto simp: f_def)
  have d2': "drop idx2 ord = drop (c + c) (drop idx ord)"
    using d2 d1 by (metis add.commute drop_drop)
  have d1': "drop idx1 ord = drop c (drop idx ord)"
    using d1 by (simp add: add.commute)
  have e: "fillTables ps (Some ord) (s # sizes) idx =
        Inr ((map f (take c (drop idx ord)) @ rev (map f (take c (drop idx1 ord)))) # rest)"
    by (simp only: fillTables.simps Let_def c_def [symmetric] l r rest(1) andThen_def
        sum.case prod.case)
  have "take (2 * c + seatsFilled sizes) (drop idx ord)
        = take c (drop idx ord) @ take c (drop c (drop idx ord))
          @ take (seatsFilled sizes) (drop (c + c) (drop idx ord))"
  proof -
    have "take (2 * c + seatsFilled sizes) (drop idx ord)
          = take (c + (c + seatsFilled sizes)) (drop idx ord)" by (simp add: mult_2 add.assoc)
    also have "\<dots> = take c (drop idx ord) @ take (c + seatsFilled sizes) (drop c (drop idx ord))"
      by (rule take_add)
    also have "take (c + seatsFilled sizes) (drop c (drop idx ord))
          = take c (drop c (drop idx ord)) @ take (seatsFilled sizes) (drop c (drop c (drop idx ord)))"
      by (rule take_add)
    also have "drop c (drop c (drop idx ord)) = drop (c + c) (drop idx ord)"
      by (simp add: add.assoc)
    finally show ?thesis .
  qed
  then have "mset (map f (take (seatsFilled (s # sizes)) (drop idx ord))) =
        mset (map f (take c (drop idx ord))) + mset (map f (take c (drop idx1 ord)))
          + mset (concat rest)"
    unfolding rest(3) d2' d1' by (simp add: seatsFilled_def c_def)
  then show ?case unfolding e f_def [symmetric] using rest(2) by simp
qed

lemma sum_le_seatsFilled: "sum_list sizes \<le> seatsFilled sizes"
  unfolding seatsFilled_def by (induction sizes) auto

lemma initial_placement:
  assumes perm: "mset ord = mset [0 ..< length ps]" and cap: "length ps \<le> sum_list sizes"
  shows "\<exists>tbls. fillTables ps (Some ord) sizes 0 = Inr tbls \<and>
           nonNullSeats tbls = mset (map Occupied ps)"
proof -
  obtain tbls where t: "fillTables ps (Some ord) sizes 0 = Inr tbls"
      "mset (concat tbls) = mset (map (\<lambda>x. seatOf (elemAt ps x)) (take (seatsFilled sizes) (drop 0 ord)))"
    using fillTables_result [of ps ord sizes 0] by blast
  have "length ord = length ps" using perm by (metis length_upt diff_zero mset_eq_length)
  then have "take (seatsFilled sizes) ord = ord"
    using cap sum_le_seatsFilled [of sizes] by simp
  then have "mset (concat tbls) = image_mset (\<lambda>x. seatOf (elemAt ps x)) (mset ord)"
    using t(2) by simp
  also have "\<dots> = mset (map (\<lambda>x. seatOf (elemAt ps x)) [0 ..< length ps])"
    unfolding perm by simp
  also have "map (\<lambda>x. seatOf (elemAt ps x)) [0 ..< length ps] = map (\<lambda>x. Occupied (ps ! x)) [0 ..< length ps]"
    by (simp add: seatOf_def elemAt_def)
  also have "\<dots> = map Occupied ps"
  proof -
    have "map Occupied ps = map Occupied (map (\<lambda>x. ps ! x) [0 ..< length ps])"
      by (simp only: map_nth)
    then show ?thesis by (simp add: comp_def)
  qed
  finally have "mset (concat tbls) = mset (map Occupied ps)" .
  then have "nonNullSeats tbls = filter_mset (\<lambda>st. st \<noteq> Null) (mset (map Occupied ps))"
    by (simp add: nonNullSeats_def)
  also have "\<dots> = mset (map Occupied ps)"
    by (induction ps) auto
  finally show ?thesis using t(1) by blast
qed

section \<open>The repair of all declared pairs\<close>

lemma map_set_nonempty: "map_set m k v \<noteq> []"
  by (induction m k v rule: map_set.induct) auto

lemma findConstantPairsFrom_nonempty:
  "acc \<noteq> [] \<Longrightarrow> findConstantPairsFrom ps names acc \<noteq> []"
proof (induction names arbitrary: acc)
  case Nil
  then show ?case by simp
next
  case (Cons p names)
  obtain n1 n2 where p: "p = (n1, n2)" by (cases p)
  show ?case
    using Cons.IH [OF Cons.prems] Cons.IH [OF map_set_nonempty]
    by (simp add: p split: option.splits)
qed

lemma findConstantPairsFrom_resolved:
  "(n1, n2) \<in> set names \<Longrightarrow> findIndex ps n1 = Some i1 \<Longrightarrow> findIndex ps n2 = Some i2 \<Longrightarrow>
   findConstantPairsFrom ps names acc \<noteq> []"
proof (induction names arbitrary: acc)
  case Nil
  then show ?case by simp
next
  case (Cons p names)
  obtain m1 m2 where p: "p = (m1, m2)" by (cases p)
  show ?case
  proof (cases "p = (n1, n2)")
    case True
    then show ?thesis
      using Cons.prems(2,3) findConstantPairsFrom_nonempty [OF map_set_nonempty] p by simp
  next
    case False
    then have "(n1, n2) \<in> set names" using Cons.prems(1) by simp
    from Cons.IH [OF this Cons.prems(2,3)] show ?thesis
      by (simp add: p split: option.splits)
  qed
qed

lemma enforceConstantPairsOnTables_props:
  assumes inv: "nonNullSeats tbls = mset (map Occupied ps)"
    and once: "\<forall>nm \<in> set pinnedNames. namedOnce ps nm"
  shows "nonNullSeats (enforceConstantPairsOnTables tbls (findConstantPairs ps) ps)
           = mset (map Occupied ps) \<and>
         (\<forall>n1 n2 i1 i2. (n1, n2) \<in> set CONSTANT_PAIRS_NAMES \<and>
             findIndex ps n1 = Some i1 \<and> findIndex ps n2 = Some i2
             \<longrightarrow> tableAdjacent (enforceConstantPairsOnTables tbls (findConstantPairs ps) ps) n1 n2)"
proof (cases "findConstantPairs ps = []")
  case True
  then have "\<not> (findIndex ps n1 = Some i1 \<and> findIndex ps n2 = Some i2)"
    if "(n1, n2) \<in> set CONSTANT_PAIRS_NAMES" for n1 n2 i1 i2
    using findConstantPairsFrom_resolved [OF that, of ps i1 i2 "[]"]
    by (auto simp: findConstantPairs_def)
  then show ?thesis using True inv by (auto simp: enforceConstantPairsOnTables_def)
next
  case False
  define ntp where "ntp = fold (\<lambda>p m. map_set m (name p) p) ps []"
  define M where "M = ''Majbritt Jensen''"
  define B where "B = ''Boris Sidorevitj''"
  define R where "R = ''Ragnhild '' @ [CHR 0xC5] @ ''s Harbo''"
  define J where "J = ''Janne Rygh''"
  have names: "CONSTANT_PAIRS_NAMES = [(M, B), (R, J)]"
    by (simp add: CONSTANT_PAIRS_NAMES_def M_def B_def R_def J_def)
  have ne: "M \<noteq> B" "R \<noteq> J" "M \<noteq> R" "M \<noteq> J" "B \<noteq> R" "B \<noteq> J"
    by (simp_all add: M_def B_def R_def J_def)
  define tbls1 where "tbls1 = enforcePairOnTables ntp tbls (M, B)"
  define tbls2 where "tbls2 = enforcePairOnTables ntp tbls1 (R, J)"
  have e: "enforceConstantPairsOnTables tbls (findConstantPairs ps) ps = map popNulls tbls2"
    using False by (simp add: enforceConstantPairsOnTables_def Let_def names ntp_def tbls1_def tbls2_def)
  have on: "namedOnce ps B" "namedOnce ps J"
    using once by (simp_all add: pinnedNames_def names)
  note s1 = enforcePair_step [OF inv on(1) ntp_def ne(1), folded tbls1_def]
  from s1 have inv1: "nonNullSeats tbls1 = mset (map Occupied ps)" by simp
  note s2 = enforcePair_step [OF inv1 on(2) ntp_def ne(2), folded tbls2_def]
  from s2 have inv2: "nonNullSeats tbls2 = mset (map Occupied ps)" by simp
  have r: "n \<in> name ` set ps" if "findIndex ps n = Some i" for n i
    using findIndex_name [OF that] by (metis image_eqI nth_mem)
  have "tableAdjacent (map popNulls tbls2) n1 n2"
    if "(n1, n2) \<in> set CONSTANT_PAIRS_NAMES" "findIndex ps n1 = Some i1" "findIndex ps n2 = Some i2"
    for n1 n2 i1 i2
  proof -
    have "tableAdjacent tbls2 n1 n2"
    proof (cases "(n1, n2) = (M, B)")
      case True
      then have "tableAdjacent tbls1 M B" using s1 r that(2,3) by blast
      then have "tableAdjacent tbls2 M B" using s2 ne by blast
      then show ?thesis using True by simp
    next
      case False
      then have "(n1, n2) = (R, J)" using that(1) unfolding names by auto
      then show ?thesis using s2 r that(2,3) by blast
    qed
    then show ?thesis by (rule tableAdjacent_popNulls)
  qed
  then show ?thesis unfolding e using inv2 by (simp add: nonNullSeats_popNulls)
qed

section \<open>A named seat has one position\<close>

lemma filter_once_nth_eq:
  "length (filter P xs) \<le> 1 \<Longrightarrow> s < length xs \<Longrightarrow> s' < length xs \<Longrightarrow> P (xs ! s) \<Longrightarrow>
   P (xs ! s') \<Longrightarrow> s = s'"
proof (induction xs arbitrary: s s')
  case Nil
  then show ?case by simp
next
  case (Cons x xs)
  have two: False if "P x" "k < length xs" "P (xs ! k)" for k
  proof -
    have "xs ! k \<in> set (filter P xs)" using that(2,3) by simp
    then have "filter P xs \<noteq> []" by (metis empty_iff empty_set)
    then have "0 < length (filter P xs)" by simp
    then show False using Cons.prems(1) that(1) by simp
  qed
  show ?case
  proof (cases s)
    case 0
    note s0 = 0
    show ?thesis
    proof (cases s')
      case 0
      then show ?thesis using s0 by simp
    next
      case (Suc k)
      then show ?thesis using two [of k] Cons.prems s0 by simp
    qed
  next
    case (Suc j)
    show ?thesis
    proof (cases s')
      case 0
      then show ?thesis using two [of j] Cons.prems Suc by simp
    next
      case k: (Suc k)
      have "length (filter P xs) \<le> 1" using Cons.prems(1) by (simp split: if_splits)
      from Cons.IH [OF this, of j k] Cons.prems Suc k show ?thesis by simp
    qed
  qed
qed

lemma filter_once_position:
  "length (filter P (concat tbls)) \<le> 1 \<Longrightarrow>
   t < length tbls \<Longrightarrow> s < length (tbls ! t) \<Longrightarrow> t' < length tbls \<Longrightarrow> s' < length (tbls ! t') \<Longrightarrow>
   P (tbls ! t ! s) \<Longrightarrow> P (tbls ! t' ! s') \<Longrightarrow> t = t' \<and> s = s'"
proof (induction tbls arbitrary: t t')
  case Nil
  then show ?case by simp
next
  case (Cons xs tbls)
  have l: "length (filter P xs) + length (filter P (concat tbls)) \<le> 1"
    using Cons.prems(1) by simp
  have inx: "0 < length (filter P xs)" if "j < length xs" "P (xs ! j)" for j
  proof -
    have "xs ! j \<in> set (filter P xs)" using that by simp
    then have "filter P xs \<noteq> []" by (metis empty_iff empty_set)
    then show ?thesis by simp
  qed
  have inr: "0 < length (filter P (concat tbls))"
    if "k < length tbls" "j < length (tbls ! k)" "P (tbls ! k ! j)" for k j
  proof -
    have "tbls ! k ! j \<in> set (tbls ! k)" using that(2) by simp
    moreover have "tbls ! k \<in> set tbls" using that(1) by simp
    ultimately have "tbls ! k ! j \<in> set (concat tbls)" by auto
    then have "tbls ! k ! j \<in> set (filter P (concat tbls))" using that(3) by simp
    then have "filter P (concat tbls) \<noteq> []" by (metis empty_iff empty_set)
    then show ?thesis by simp
  qed
  show ?case
  proof (cases t)
    case 0
    note t0 = 0
    have a: "s < length xs" "P (xs ! s)" using Cons.prems(3,6) t0 by simp_all
    show ?thesis
    proof (cases t')
      case 0
      have b: "s' < length xs" "P (xs ! s')" using Cons.prems(5,7) 0 by simp_all
      have "length (filter P xs) \<le> 1" using l by simp
      from filter_once_nth_eq [OF this a(1) b(1) a(2) b(2)] show ?thesis using t0 0 by simp
    next
      case (Suc k)
      have "k < length tbls" "s' < length (tbls ! k)" "P (tbls ! k ! s')"
        using Cons.prems(4,5,7) Suc by simp_all
      from inr [OF this] inx [OF a] l show ?thesis by linarith
    qed
  next
    case (Suc j)
    have b: "j < length tbls" "s < length (tbls ! j)" "P (tbls ! j ! s)"
      using Cons.prems(2,3,6) Suc by simp_all
    show ?thesis
    proof (cases t')
      case 0
      have "s' < length xs" "P (xs ! s')" using Cons.prems(5,7) 0 by simp_all
      from inx [OF this] inr [OF b] l show ?thesis by linarith
    next
      case k: (Suc k)
      have c: "k < length tbls" "s' < length (tbls ! k)" "P (tbls ! k ! s')"
        using Cons.prems(4,5,7) k by simp_all
      have "length (filter P (concat tbls)) \<le> 1" using l by simp
      from Cons.IH [OF this b(1,2) c(1,2) b(3) c(3)] show ?thesis using Suc k by simp
    qed
  qed
qed

lemma named_seats_count:
  assumes inv: "nonNullSeats tbls = mset (map Occupied ps)"
  shows "length (filter (\<lambda>st. seatHasName st nm) (concat tbls))
           = length (filter (\<lambda>p. name p = nm) ps)"
proof -
  have "mset (filter (\<lambda>st. seatHasName st nm) (concat tbls))
          = filter_mset (\<lambda>st. seatHasName st nm) (nonNullSeats tbls)"
    unfolding nonNullSeats_def mset_filter filter_filter_mset
    by (rule filter_mset_cong) auto
  also have "\<dots> = mset (filter (\<lambda>st. seatHasName st nm) (map Occupied ps))"
    unfolding inv by (simp only: mset_filter)
  also have "filter (\<lambda>st. seatHasName st nm) (map Occupied ps)
          = map Occupied (filter (\<lambda>p. name p = nm) ps)"
    by (simp add: filter_map comp_def)
  finally have "mset (filter (\<lambda>st. seatHasName st nm) (concat tbls))
          = mset (map Occupied (filter (\<lambda>p. name p = nm) ps))" .
  then have "length (filter (\<lambda>st. seatHasName st nm) (concat tbls))
          = length (map Occupied (filter (\<lambda>p. name p = nm) ps))"
    by (rule mset_eq_length)
  then show ?thesis by simp
qed

lemma named_seat_unique:
  assumes inv: "nonNullSeats tbls = mset (map Occupied ps)" and once: "namedOnce ps nm"
    and a: "t < length tbls" "s < length (tbls ! t)" "seatHasName (tbls ! t ! s) nm"
    and b: "t' < length tbls" "s' < length (tbls ! t')" "seatHasName (tbls ! t' ! s') nm"
  shows "t = t' \<and> s = s' \<and> (\<exists>p \<in> set ps. name p = nm \<and> tbls ! t ! s = Occupied p)"
proof -
  obtain q where q: "tbls ! t ! s = Occupied q" "name q = nm"
    using a(3) by (auto simp: seatHasName_def split: seat.splits)
  have "Occupied q \<in># nonNullSeats tbls"
    unfolding Occupied_in_nonNullSeats using a q by blast
  then have m: "q \<in> set ps" unfolding inv by auto
  have "length (filter (\<lambda>st. seatHasName st nm) (concat tbls)) \<le> 1"
    using once unfolding named_seats_count [OF inv] namedOnce_def .
  from filter_once_position [OF this a(1,2) b(1,2) a(3) b(3)]
  have "t = t' \<and> s = s'" .
  then show ?thesis using m q by blast
qed

section \<open>Claims about the table mapper\<close>

lemma assignToTables_result:
  assumes ord: "order seatingResult = Some ord"
    and perm0: "distinct ord \<and> set ord = {..<length (people seatingResult)}"
    and cap: "length (people seatingResult) \<le> sum_list tableSizes"
    and once: "\<forall>nm \<in> set pinnedNames. namedOnce (people seatingResult) nm"
  shows "\<exists>ta. assignToTables seatingResult tableSizes = Inr ta \<and>
           nonNullSeats (tables ta) = mset (map Occupied (people seatingResult)) \<and>
           (\<forall>n1 n2 i1 i2. (n1, n2) \<in> set CONSTANT_PAIRS_NAMES \<and>
               findIndex (people seatingResult) n1 = Some i1 \<and>
               findIndex (people seatingResult) n2 = Some i2
               \<longrightarrow> tableAdjacent (tables ta) n1 n2)"
proof -
  define ps where "ps = people seatingResult"
  have "set ord = set [0 ..< length (people seatingResult)]" using perm0 by (simp add: atLeast0LessThan)
  moreover have "distinct ord" "distinct [0 ..< length (people seatingResult)]" using perm0 by simp_all
  ultimately have perm: "mset ord = mset [0 ..< length (people seatingResult)]"
    by (simp only: set_eq_iff_mset_eq_distinct)
  obtain tbls0 where t0: "fillTables ps (Some ord) tableSizes 0 = Inr tbls0"
      "nonNullSeats tbls0 = mset (map Occupied ps)"
    using initial_placement [OF perm cap] unfolding ps_def by blast
  define tbls1 where "tbls1 = enforceConstantPairsOnTables tbls0 (findConstantPairs ps) ps"
  have "assignToTables seatingResult tableSizes =
      Inr \<lparr>tables = tbls1, statistics = calculateStatistics tbls1\<rparr>"
    by (simp add: assignToTables_def Let_def ord ps_def [symmetric] t0(1) andThen_def tbls1_def)
  moreover note enforceConstantPairsOnTables_props [OF t0(2) once [folded ps_def], folded tbls1_def]
  ultimately show ?thesis unfolding ps_def [symmetric] by simp
qed




text \<open>
  C2, as the code has it. Under the conditions of C3 (the order a permutation of the
  participant indices, room for all participants, no name of the constraint registry
  carried by two participants), for every declared pair whose two names both resolve to
  participants, \<open>assignToTables\<close> returns an assignment in which the two members occupy
  seats of the same table whose indices are ring-adjacent (they differ by 1, or one is the
  first and the other the last seat of the table); the validation of the pair on the
  resulting tables reports that they sit together.
\<close>

theorem C2_resolved_pairs_sit_together:
  assumes "order seatingResult = Some ord"
    and "distinct ord \<and> set ord = {..<length (people seatingResult)}"
    and "length (people seatingResult) \<le> sum_list tableSizes"
    and "\<forall>nm \<in> set pinnedNames. namedOnce (people seatingResult) nm"
    and "(name1, name2) \<in> set CONSTANT_PAIRS_NAMES"
    and "findIndex (people seatingResult) name1 = Some idx1"
    and "findIndex (people seatingResult) name2 = Some idx2"
  shows "\<exists>ta t seat1 seat2. assignToTables seatingResult tableSizes = Inr ta \<and>
           t < length (tables ta) \<and>
           seat1 < length (tables ta ! t) \<and> seat2 < length (tables ta ! t) \<and>
           tables ta ! t ! seat1 = Occupied (people seatingResult ! idx1) \<and>
           tables ta ! t ! seat2 = Occupied (people seatingResult ! idx2) \<and>
           areNeighbors (int seat1) (int seat2) (int (length (tables ta ! t))) \<and>
           validatePair (tables ta) (name1, name2) = Together"
proof -
  define ps where "ps = people seatingResult"
  have pn: "name1 \<in> set pinnedNames" "name2 \<in> set pinnedNames"
    using assms(5) unfolding pinnedNames_def by force+
  have on: "namedOnce ps name1" "namedOnce ps name2"
    using assms(4) pn unfolding ps_def by blast+
  from assignToTables_result [OF assms(1-4)] assms(5-7)
  obtain ta where ta: "assignToTables seatingResult tableSizes = Inr ta"
    and inv: "nonNullSeats (tables ta) = mset (map Occupied ps)"
    and adj: "tableAdjacent (tables ta) name1 name2"
    unfolding ps_def by blast
  from adj obtain t s1 s2 where p: "t < length (tables ta)"
      "s1 < length (tables ta ! t)" "s2 < length (tables ta ! t)"
      "seatHasName (tables ta ! t ! s1) name1" "seatHasName (tables ta ! t ! s2) name2"
      "areNeighbors (int s1) (int s2) (int (length (tables ta ! t)))"
    unfolding tableAdjacent_def adjacentIn_def by blast
  have i: "idx1 < length ps" "name (ps ! idx1) = name1" "idx2 < length ps" "name (ps ! idx2) = name2"
    using findIndex_name assms(6,7) unfolding ps_def by blast+
  obtain q1 where q1: "q1 \<in> set ps" "name q1 = name1" "tables ta ! t ! s1 = Occupied q1"
    using named_seat_unique [OF inv on(1) p(1,2,4) p(1,2,4)] by blast
  obtain q2 where q2: "q2 \<in> set ps" "name q2 = name2" "tables ta ! t ! s2 = Occupied q2"
    using named_seat_unique [OF inv on(2) p(1,3,5) p(1,3,5)] by blast
  have "q1 = ps ! idx1"
    using q1(1,2) i(1,2) by (intro namedOnce_unique [OF on(1)]) simp_all
  moreover have "q2 = ps ! idx2"
    using q2(1,2) i(3,4) by (intro namedOnce_unique [OF on(2)]) simp_all
  ultimately have seats: "tables ta ! t ! s1 = Occupied (ps ! idx1)"
      "tables ta ! t ! s2 = Occupied (ps ! idx2)"
    using q1(3) q2(3) by simp_all
  obtain ta1 sa1 where l1: "locate (tables ta) name1 = Some (ta1, sa1)"
    using locate_exists [OF p(1,2,4)] by blast
  obtain ta2 sa2 where l2: "locate (tables ta) name2 = Some (ta2, sa2)"
    using locate_exists [OF p(1,3,5)] by blast
  from locate_Some [OF l1] named_seat_unique [OF inv on(1) p(1,2,4), of ta1 sa1]
  have e1: "ta1 = t" "sa1 = s1" by auto
  from locate_Some [OF l2] named_seat_unique [OF inv on(2) p(1,3,5), of ta2 sa2]
  have e2: "ta2 = t" "sa2 = s2" by auto
  have "validatePair (tables ta) (name1, name2) = Together"
    using p(6) by (simp add: validatePair_def l1 l2 e1 e2)
  with ta p(1-3,6) seats show ?thesis unfolding ps_def by blast
qed

theorem C2_resolved_pairs_sit_together_witness:
  "order fiveInOrder = Some fiveRoute \<and>
   (distinct fiveRoute \<and> set fiveRoute = {..<length (people fiveInOrder)}) \<and>
   length (people fiveInOrder) \<le> sum_list [3, 3] \<and>
   list_all (namedOnce (people fiveInOrder)) pinnedNames \<and>
   (''Majbritt Jensen'', ''Boris Sidorevitj'') \<in> set CONSTANT_PAIRS_NAMES \<and>
   findIndex (people fiveInOrder) ''Majbritt Jensen'' = Some 0 \<and>
   findIndex (people fiveInOrder) ''Boris Sidorevitj'' = Some 3 \<and>
   (\<exists>ta t seat1 seat2. assignToTables fiveInOrder [3, 3] = Inr ta \<and>
      t < length (tables ta) \<and>
      seat1 < length (tables ta ! t) \<and> seat2 < length (tables ta ! t) \<and>
      tables ta ! t ! seat1 = Occupied (people fiveInOrder ! 0) \<and>
      tables ta ! t ! seat2 = Occupied (people fiveInOrder ! 3) \<and>
      areNeighbors (int seat1) (int seat2) (int (length (tables ta ! t))) \<and>
      validatePair (tables ta) (''Majbritt Jensen'', ''Boris Sidorevitj'') = Together)"
proof -
  have h: "order fiveInOrder = Some fiveRoute"
    "distinct fiveRoute \<and> set fiveRoute = {..<length (people fiveInOrder)}"
    "length (people fiveInOrder) \<le> sum_list [3, 3]"
    by (auto simp: fiveInOrder_def fiveRoute_def fivePeople_def)
  have o: "list_all (namedOnce (people fiveInOrder)) pinnedNames" by code_simp
  then have o': "\<forall>nm \<in> set pinnedNames. namedOnce (people fiveInOrder) nm"
    by (simp add: list_all_iff)
  have p: "(''Majbritt Jensen'', ''Boris Sidorevitj'') \<in> set CONSTANT_PAIRS_NAMES"
    "findIndex (people fiveInOrder) ''Majbritt Jensen'' = Some 0"
    "findIndex (people fiveInOrder) ''Boris Sidorevitj'' = Some 3"
    by (simp_all add: CONSTANT_PAIRS_NAMES_def fiveInOrder_def fivePeople_def mkPerson_def)
  from C2_resolved_pairs_sit_together [OF h o' p] h o p show ?thesis by blast
qed

text \<open>
  C2, as the claim states it, fails on the same input. The two names of the first declared
  pair resolve to the participants 0 and 2; after the assignment participant 2 has no seat
  at all, so the two members do not sit next to each other, and the validation finds the
  name of the second member at the other table.
\<close>

theorem C2_duplicate_pinned_name_counterexample:
  "(''Majbritt Jensen'', ''Boris Sidorevitj'') \<in> set CONSTANT_PAIRS_NAMES \<and>
   findIndex (people dupInOrder) ''Majbritt Jensen'' = Some 0 \<and>
   findIndex (people dupInOrder) ''Boris Sidorevitj'' = Some 2 \<and>
   map_sum id
     (\<lambda>ta. (list_ex (\<lambda>st. st = Occupied (people dupInOrder ! 2)) (concat (tables ta)),
            validatePair (tables ta) (''Majbritt Jensen'', ''Boris Sidorevitj'')))
     (assignToTables dupInOrder [2, 4]) = Inr (False, DifferentTables)"
  by code_simp

end
